theory Spec2Isabelle
  imports Main
begin

section \<open>Text and character categories\<close>

text \<open>
  Python text is modelled as \<^typ>\<open>string\<close>: a list of characters with code points
  0 to 255. The categories below are those of Python's \<^verbatim>\<open>re\<close> module for \<^verbatim>\<open>str\<close>
  patterns on that range: \<^verbatim>\<open>\d\<close> is the decimal digits, \<^verbatim>\<open>\s\<close> is \<^verbatim>\<open>str.isspace\<close>,
  \<^verbatim>\<open>\w\<close> is \<^verbatim>\<open>str.isalnum\<close> or the underscore.
\<close>

definition code :: "char \<Rightarrow> nat" where
  "code c = of_char c"

definition in_range :: "nat \<Rightarrow> nat \<Rightarrow> nat \<Rightarrow> bool" where
  "in_range lo hi n = (lo \<le> n \<and> n \<le> hi)"

definition digit_code :: "nat \<Rightarrow> bool" where
  "digit_code n = in_range 48 57 n"

definition space_code :: "nat \<Rightarrow> bool" where
  "space_code n = (in_range 9 13 n \<or> in_range 28 32 n \<or> n = 133 \<or> n = 160)"

definition word_code :: "nat \<Rightarrow> bool" where
  "word_code n = (in_range 48 57 n \<or> in_range 65 90 n \<or> in_range 97 122 n \<or> n = 95
     \<or> n = 170 \<or> n = 178 \<or> n = 179 \<or> n = 181 \<or> n = 185 \<or> n = 186
     \<or> in_range 188 190 n \<or> in_range 192 214 n \<or> in_range 216 246 n \<or> 248 \<le> n)"

definition is_digit :: "char \<Rightarrow> bool" where
  "is_digit c = digit_code (code c)"

definition is_space :: "char \<Rightarrow> bool" where
  "is_space c = space_code (code c)"

definition is_word :: "char \<Rightarrow> bool" where
  "is_word c = word_code (code c)"

text \<open>
  Case folding for \<^verbatim>\<open>re.IGNORECASE\<close>, on code points. Every pattern of the program is
  written in ASCII, and no character between 128 and 255 folds to an ASCII letter, so
  folding the ASCII letters is all that matching against those patterns can observe.
\<close>

definition lower_code :: "nat \<Rightarrow> nat" where
  "lower_code n = (if in_range 65 90 n then n + 32 else n)"

definition upper_code :: "nat \<Rightarrow> nat" where
  "upper_code n = (if in_range 97 122 n then n - 32 else n)"

section \<open>Regular expressions as the program uses them\<close>

text \<open>
  The patterns of the program use literals, bracket sets, the categories \<^verbatim>\<open>\d\<close> and
  \<^verbatim>\<open>\s\<close>, the dot, greedy repetition of a single-character matcher, the word boundary
  \<^verbatim>\<open>\b\<close>, alternation, and at most one capturing group.
\<close>

datatype citem = CChar char | CRange char char | CDigit | CSpace

datatype atom = Chr char | InSet "citem list" | NotInSet "citem list" | AnyChar

datatype re =
    One atom
  | Rep atom nat "nat option"
  | WordB
  | Eps
  | Seq re re
  | Alt re re
  | Grp re

fun citem_ok :: "bool \<Rightarrow> citem \<Rightarrow> nat \<Rightarrow> bool" where
  "citem_ok ic (CChar x) n = (if ic then lower_code n = lower_code (code x) else n = code x)"
| "citem_ok ic (CRange lo hi) n =
     (if ic then in_range (code lo) (code hi) (lower_code n) \<or> in_range (code lo) (code hi) (upper_code n)
      else in_range (code lo) (code hi) n)"
| "citem_ok ic CDigit n = digit_code n"
| "citem_ok ic CSpace n = space_code n"

fun atom_code_ok :: "bool \<Rightarrow> atom \<Rightarrow> nat \<Rightarrow> bool" where
  "atom_code_ok ic (Chr x) n = (if ic then lower_code n = lower_code (code x) else n = code x)"
| "atom_code_ok ic (InSet items) n = (\<exists>i \<in> set items. citem_ok ic i n)"
| "atom_code_ok ic (NotInSet items) n = (\<not> (\<exists>i \<in> set items. citem_ok ic i n))"
| "atom_code_ok ic AnyChar n = True"

definition atom_ok :: "bool \<Rightarrow> atom \<Rightarrow> char \<Rightarrow> bool" where
  "atom_ok ic a c = atom_code_ok ic a (code c)"

text \<open>
  A matcher state is the text to the left of the cursor (reversed, nearest character
  first), the text from the cursor on, and the text captured by group 1, if any.
\<close>

type_synonym mstate = "string \<times> string \<times> string option"

definition word_before :: "string \<Rightarrow> bool" where
  "word_before l = (case l of [] \<Rightarrow> False | c # _ \<Rightarrow> is_word c)"

definition at_boundary :: "string \<Rightarrow> string \<Rightarrow> bool" where
  "at_boundary l r = (word_before l \<noteq> word_before r)"

definition advance :: "mstate \<Rightarrow> nat \<Rightarrow> mstate" where
  "advance st j = (case st of (l, r, g) \<Rightarrow> (rev (take j r) @ l, drop j r, g))"

text \<open>
  Greedy repetition of a single-character matcher: count how far it can run (up to the
  upper bound), then offer that many characters, then one fewer, down to the lower bound.
\<close>

definition rep_count :: "bool \<Rightarrow> atom \<Rightarrow> nat option \<Rightarrow> string \<Rightarrow> nat" where
  "rep_count ic a hi r =
     (let n = length (takeWhile (atom_ok ic a) r)
      in case hi of None \<Rightarrow> n | Some h \<Rightarrow> min h n)"

text \<open>
  \<open>m ic e st\<close> lists the states in which \<open>e\<close> can finish when started in \<open>st\<close>, in the
  order in which a backtracking matcher tries them; the matcher takes the first.
\<close>

fun m :: "bool \<Rightarrow> re \<Rightarrow> mstate \<Rightarrow> mstate list" where
  "m ic (One a) st =
     (case st of (l, r, g) \<Rightarrow>
        (case r of [] \<Rightarrow> [] | c # cs \<Rightarrow> if atom_ok ic a c then [(c # l, cs, g)] else []))"
| "m ic (Rep a lo hi) st =
     (case st of (l, r, g) \<Rightarrow>
        map (advance st) (rev [lo ..< Suc (rep_count ic a hi r)]))"
| "m ic WordB st =
     (case st of (l, r, g) \<Rightarrow> if at_boundary l r then [st] else [])"
| "m ic Eps st = [st]"
| "m ic (Seq e1 e2) st = concat (map (m ic e2) (m ic e1 st))"
| "m ic (Alt e1 e2) st = m ic e1 st @ m ic e2 st"
| "m ic (Grp e) st =
     (case st of (l, r, g) \<Rightarrow>
        map (\<lambda>(l', r', g'). (l', r', Some (rev (take (length l' - length l) l')))) (m ic e st))"

fun ngroups :: "re \<Rightarrow> nat" where
  "ngroups (Seq e1 e2) = ngroups e1 + ngroups e2"
| "ngroups (Alt e1 e2) = ngroups e1 + ngroups e2"
| "ngroups (Grp e) = Suc (ngroups e)"
| "ngroups _ = 0"

text \<open>
  \<^verbatim>\<open>re.search\<close>: try the cursor positions from left to right, the end of the text
  included. The result is the matched text, the state after it, and the text skipped
  before it.
\<close>

fun search :: "bool \<Rightarrow> re \<Rightarrow> string \<Rightarrow> string \<Rightarrow> (string \<times> string \<times> mstate) option" where
  "search ic e l [] =
     (case m ic e (l, [], None) of
        [] \<Rightarrow> None
      | (l', r', g) # _ \<Rightarrow> Some ([], rev (take (length l' - length l) l'), (l', r', g)))"
| "search ic e l (c # cs) =
     (case m ic e (l, c # cs, None) of
        [] \<Rightarrow> (case search ic e (c # l) cs of
                 None \<Rightarrow> None
               | Some (skipped, mt, st) \<Rightarrow> Some (c # skipped, mt, st))
      | (l', r', g) # _ \<Rightarrow> Some ([], rev (take (length l' - length l) l'), (l', r', g)))"

text \<open>
  Every state that \<open>m\<close> returns lies further right in the same text.
\<close>

lemma m_advances:
  "(l', r', g') \<in> set (m ic e (l, r, g)) \<Longrightarrow> \<exists>k \<le> length r. l' = rev (take k r) @ l \<and> r' = drop k r"
proof (induction e arbitrary: l r g l' r' g')
  case (One a)
  then show ?case
  proof (cases r)
    case Nil
    with One show ?thesis by simp
  next
    case (Cons c cs)
    with One have "l' = c # l \<and> r' = cs" by (simp split: if_splits)
    with Cons show ?thesis by (intro exI[of _ 1]) simp
  qed
next
  case (Rep a lo hi)
  then have "(l', r', g') \<in> advance (l, r, g) ` {lo ..< Suc (rep_count ic a hi r)}"
    by (simp del: upt_Suc)
  then obtain j where j: "j \<le> rep_count ic a hi r" "(l', r', g') = advance (l, r, g) j"
    by (auto simp: less_Suc_eq_le)
  have "rep_count ic a hi r \<le> length r"
    using length_takeWhile_le[of "atom_ok ic a" r]
    by (auto simp: rep_count_def Let_def split: option.splits)
  with j show ?case by (intro exI[of _ j]) (simp add: advance_def)
next
  case WordB
  then show ?case by (auto split: if_splits intro: exI[of _ 0])
next
  case Eps
  then show ?case by (auto intro: exI[of _ 0])
next
  case (Seq e1 e2)
  from Seq.prems obtain l1 r1 g1 where
    a: "(l1, r1, g1) \<in> set (m ic e1 (l, r, g))" and b: "(l', r', g') \<in> set (m ic e2 (l1, r1, g1))"
    by auto
  from Seq.IH(1)[OF a] obtain k1 where
    k1: "k1 \<le> length r" "l1 = rev (take k1 r) @ l" "r1 = drop k1 r" by blast
  from Seq.IH(2)[OF b] obtain k2 where
    k2: "k2 \<le> length r1" "l' = rev (take k2 r1) @ l1" "r' = drop k2 r1" by blast
  have "take (k1 + k2) r = take k1 r @ take k2 (drop k1 r)"
    by (simp add: take_add)
  with k1 k2 have "k1 + k2 \<le> length r \<and> l' = rev (take (k1 + k2) r) @ l \<and> r' = drop (k1 + k2) r"
    by (simp add: add.commute)
  then show ?case by blast
next
  case (Alt e1 e2)
  then show ?case by auto
next
  case (Grp e)
  then show ?case by auto
qed

lemma search_shape:
  "search ic e l r = Some (skipped, mt, (l', r', g)) \<Longrightarrow>
     r = skipped @ mt @ r' \<and> l' = rev mt @ rev skipped @ l"
proof (induction r arbitrary: l skipped)
  case Nil
  then obtain ms where ms: "m ic e (l, [], None) = (l', r', g) # ms"
    and sk: "skipped = []" and mt: "mt = rev (take (length l' - length l) l')"
    by (auto split: list.splits)
  from ms have "(l', r', g) \<in> set (m ic e (l, [], None))" by simp
  from m_advances[OF this] sk mt show ?case by auto
next
  case (Cons c cs)
  show ?case
  proof (cases "m ic e (l, c # cs, None)")
    case Nil
    with Cons.prems obtain sk' where
      s: "search ic e (c # l) cs = Some (sk', mt, (l', r', g))" and sk: "skipped = c # sk'"
      by (auto split: option.splits)
    from Cons.IH[OF s] sk show ?thesis by simp
  next
    case (Cons st ms)
    with Cons.prems have st: "st = (l', r', g)" and sk: "skipped = []"
      and mt: "mt = rev (take (length l' - length l) l')"
      by (auto split: prod.splits)
    from Cons st have "(l', r', g) \<in> set (m ic e (l, c # cs, None))" by simp
    from m_advances[OF this] obtain k where
      k: "k \<le> length (c # cs)" "l' = rev (take k (c # cs)) @ l" "r' = drop k (c # cs)" by blast
    then have "mt = take k (c # cs)" using mt by (simp add: min_absorb2)
    with k sk show ?thesis by simp
  qed
qed

text \<open>
  The left-to-right iteration that \<^verbatim>\<open>re.findall\<close> and \<^verbatim>\<open>re.sub\<close> share: search from
  the cursor, keep the text skipped and the hit, and go on behind the hit. Behind an empty
  hit the cursor moves on by one character; no pattern of the program matches the empty
  text (see \<open>all_patterns_stable\<close>), so that branch is never taken here.
\<close>

datatype piece = Copy string | Hit string "string option"

function scan :: "bool \<Rightarrow> re \<Rightarrow> string \<Rightarrow> string \<Rightarrow> piece list" where
  "scan ic e l r =
     (case search ic e l r of
        None \<Rightarrow> [Copy r]
      | Some (skipped, mt, (l', r', g)) \<Rightarrow>
          Copy skipped # Hit mt g #
            (if mt = [] then (case r' of [] \<Rightarrow> [] | c # cs \<Rightarrow> Copy [c] # scan ic e (c # l') cs)
             else scan ic e l' r'))"
  by pat_completeness auto
termination
proof (relation "measure (\<lambda>(ic, e, l, r). length r)")
  show "wf (measure (\<lambda>(ic, e, l, r). length r))" by simp
next
  fix ic e l r x2 skipped y mt z l' ya r' g c cs
  assume "search ic e l r = Some x2" "(skipped, y) = x2" "(mt, z) = y" "(l', ya) = z"
    "(r', g) = ya" "mt = []" "r' = c # cs"
  then have "search ic e l r = Some (skipped, mt, (l', c # cs, g))" by simp
  from search_shape[OF this]
  show "((ic, e, c # l', cs), (ic, e, l, r)) \<in> measure (\<lambda>(ic, e, l, r). length r)" by simp
next
  fix ic e l r x2 skipped y mt z l' ya r' g
  assume "search ic e l r = Some x2" "(skipped, y) = x2" "(mt, z) = y" "(l', ya) = z"
    "(r', g) = ya" "mt \<noteq> []"
  then have "search ic e l r = Some (skipped, mt, (l', r', g))" by simp
  from search_shape[OF this] \<open>mt \<noteq> []\<close>
  show "((ic, e, l', r'), (ic, e, l, r)) \<in> measure (\<lambda>(ic, e, l, r). length r)" by simp
qed

declare scan.simps [simp del]

text \<open>
  What \<^verbatim>\<open>re.findall\<close> reports for a hit: the whole match when the pattern has no group,
  the text of the group when it has one (the empty text when the group took no part).
\<close>

definition hit_item :: "re \<Rightarrow> string \<Rightarrow> string option \<Rightarrow> string" where
  "hit_item e mt g = (if ngroups e = 0 then mt else (case g of None \<Rightarrow> [] | Some t \<Rightarrow> t))"

fun findall_items :: "re \<Rightarrow> piece list \<Rightarrow> string list" where
  "findall_items e [] = []"
| "findall_items e (Copy s # ps) = findall_items e ps"
| "findall_items e (Hit mt g # ps) = hit_item e mt g # findall_items e ps"

fun sub_text :: "string \<Rightarrow> piece list \<Rightarrow> string" where
  "sub_text repl [] = []"
| "sub_text repl (Copy s # ps) = s @ sub_text repl ps"
| "sub_text repl (Hit mt g # ps) = repl @ sub_text repl ps"

definition re_findall :: "bool \<Rightarrow> re \<Rightarrow> string \<Rightarrow> string list" where
  "re_findall ic e text = findall_items e (scan ic e [] text)"

definition re_sub :: "bool \<Rightarrow> re \<Rightarrow> string \<Rightarrow> string \<Rightarrow> string" where
  "re_sub ic e repl text = sub_text repl (scan ic e [] text)"

definition re_search :: "bool \<Rightarrow> re \<Rightarrow> string \<Rightarrow> string option" where
  "re_search ic e text =
     (case search ic e [] text of None \<Rightarrow> None | Some (skipped, mt, st) \<Rightarrow> Some mt)"

section \<open>The redaction patterns\<close>

text \<open>Notation for writing the patterns of \<^verbatim>\<open>_init_redaction_patterns\<close> down as they read.\<close>

definition str :: "string \<Rightarrow> re" where
  "str s = foldr (\<lambda>c e. Seq (One (Chr c)) e) s Eps"

definition cat :: "re list \<Rightarrow> re" where
  "cat es = foldr Seq es Eps"

fun alts :: "re list \<Rightarrow> re" where
  "alts [] = Eps"
| "alts [e] = e"
| "alts (e # es) = Alt e (alts es)"

definition plus :: "atom \<Rightarrow> re" where
  "plus a = Rep a 1 None"

definition star :: "atom \<Rightarrow> re" where
  "star a = Rep a 0 None"

definition opt :: "atom \<Rightarrow> re" where
  "opt a = Rep a 0 (Some 1)"

definition times :: "atom \<Rightarrow> nat \<Rightarrow> re" where
  "times a n = Rep a n (Some n)"

definition digit :: atom where
  "digit = InSet [CDigit]"

definition space :: atom where
  "space = InSet [CSpace]"

definition AZ :: citem where
  "AZ = CRange CHR ''A'' CHR ''Z''"

definition az :: citem where
  "az = CRange CHR ''a'' CHR ''z''"

definition d09 :: citem where
  "d09 = CRange CHR ''0'' CHR ''9''"

text \<open>\<^verbatim>\<open>[A-Za-z\s]\<close>, \<^verbatim>\<open>[A-Z0-9]\<close> and \<^verbatim>\<open>[A-Z0-9\-]\<close>\<close>

definition letters_space :: atom where
  "letters_space = InSet [AZ, az, CSpace]"

definition upper_digit :: atom where
  "upper_digit = InSet [AZ, d09]"

definition upper_digit_dash :: atom where
  "upper_digit_dash = InSet [AZ, d09, CChar CHR ''-'']"

text \<open>\<^verbatim>\<open>\bNAME\s*:?\s*\<close>, the common head of the patterns for federal codes\<close>

definition labelled :: "string \<Rightarrow> re list" where
  "labelled name = [WordB, str name, star space, opt (Chr CHR '':''), star space]"

definition government_agencies :: "re list" where
  "government_agencies =
    [ cat [WordB, Grp (alts (map str [''VA'', ''GSA'', ''DOD'', ''DHS'', ''USACE'', ''NAVY'',
             ''ARMY'', ''AIR FORCE'', ''MARINES''])), WordB],
      cat [WordB, Grp (cat [str ''Department of '', plus letters_space]), WordB],
      cat [WordB, Grp (cat [str ''U.S. '', plus letters_space, str '' Administration'']), WordB],
      cat [WordB, Grp (cat [Rep (InSet [AZ]) 2 (Some 5), str '' Command'']), WordB] ]"

definition email_pattern :: re where
  "email_pattern =
     cat [WordB,
          plus (InSet [AZ, az, d09, CChar CHR ''.'', CChar CHR ''_'', CChar CHR ''%'',
                       CChar CHR ''+'', CChar CHR ''-'']),
          str ''@'',
          plus (InSet [AZ, az, d09, CChar CHR ''.'', CChar CHR ''-'']),
          str ''.'',
          Rep (InSet [AZ, CChar CHR ''|'', az]) 2 None,
          WordB]"

definition phone_pattern :: re where
  "phone_pattern =
     cat [WordB, times digit 3, opt (InSet [CChar CHR ''-'', CChar CHR ''.'']),
          times digit 3, opt (InSet [CChar CHR ''-'', CChar CHR ''.'']),
          times digit 4, WordB]"

definition url_pattern :: re where
  "url_pattern =
     cat [WordB, str ''http'', opt (Chr CHR ''s''), str ''://'', plus (NotInSet [CSpace]), WordB]"

definition www_pattern :: re where
  "www_pattern = cat [WordB, str ''www.'', plus (NotInSet [CSpace]), WordB]"

definition contact_info :: "re list" where
  "contact_info = [email_pattern, phone_pattern, url_pattern, www_pattern]"

definition federal_codes :: "re list" where
  "federal_codes =
    [ cat (labelled ''DUNS'' @ [plus digit, WordB]),
      cat (labelled ''UEI'' @ [plus upper_digit, WordB]),
      cat (labelled ''SAM'' @ [plus upper_digit, WordB]),
      cat (labelled ''CAGE'' @ [plus upper_digit, WordB]),
      cat (labelled ''Solicitation'' @ [plus upper_digit_dash, WordB]),
      cat (labelled ''Contract'' @ [plus upper_digit_dash, WordB]) ]"

definition specific_locations :: "re list" where
  "specific_locations =
    [ cat [WordB, plus digit, plus space, plus letters_space,
           Grp (alts (map str [''Street'', ''St'', ''Avenue'', ''Ave'', ''Road'', ''Rd'',
             ''Drive'', ''Dr'', ''Boulevard'', ''Blvd''])), WordB],
      cat [WordB, plus letters_space, plus space, str ''Building'', plus space, plus digit, WordB],
      cat [WordB, plus letters_space, plus space,
           Grp (alts (map str [''Base'', ''AFB'', ''Naval'', ''Fort''])), WordB] ]"

text \<open>The table, in the order in which the dictionary literal lists its categories.\<close>

definition redaction_patterns :: "(string \<times> re list) list" where
  "redaction_patterns =
    [ (''government_agencies'', government_agencies),
      (''contact_info'', contact_info),
      (''federal_codes'', federal_codes),
      (''specific_locations'', specific_locations) ]"

section \<open>Redaction of one text\<close>

definition REDACTED :: string where
  "REDACTED = ''[REDACTED]''"

text \<open>
  The body of the inner loop of \<^verbatim>\<open>_redact_text\<close>, for one pattern of one category: the
  state is the working text and the list of redactions so far.
\<close>

definition redact_pattern :: "string \<Rightarrow> re \<Rightarrow> string \<times> string list \<Rightarrow> string \<times> string list" where
  "redact_pattern category pattern st =
     (case st of (redacted_text, redactions) \<Rightarrow>
        (let matches = re_findall True pattern redacted_text
         in if matches \<noteq> []
            then (re_sub True pattern REDACTED redacted_text,
                  redactions @ map (\<lambda>mt. ''Removed '' @ category @ '': '' @ mt) matches)
            else (redacted_text, redactions)))"

fun redact_patterns :: "string \<Rightarrow> re list \<Rightarrow> string \<times> string list \<Rightarrow> string \<times> string list" where
  "redact_patterns category [] st = st"
| "redact_patterns category (p # ps) st = redact_patterns category ps (redact_pattern category p st)"

fun redact_categories :: "(string \<times> re list) list \<Rightarrow> string \<times> string list \<Rightarrow> string \<times> string list" where
  "redact_categories [] st = st"
| "redact_categories ((category, patterns) # rest) st =
     redact_categories rest (redact_patterns category patterns st)"

definition redact_text :: "string \<Rightarrow> string \<times> string list" where
  "redact_text text = redact_categories redaction_patterns (text, [])"

section \<open>Python values and dictionaries\<close>

text \<open>
  The values that \<^verbatim>\<open>json.loads\<close> builds and that the dictionaries of the program hold.
  A float is kept as the text of its literal. A dictionary is an association list in
  insertion order; a Python dictionary never holds a key twice, which is the invariant
  \<open>distinct (map fst d)\<close>.
\<close>

datatype pyval =
    PNone
  | PBool bool
  | PInt int
  | PFloat string
  | PStr string
  | PList "pyval list"
  | PDict "(string \<times> pyval) list"

type_synonym pydict = "(string \<times> pyval) list"

text \<open>\<^verbatim>\<open>d[k] = v\<close>: an existing key keeps its place, a new key goes to the end.\<close>

fun dict_set :: "pydict \<Rightarrow> string \<Rightarrow> pyval \<Rightarrow> pydict" where
  "dict_set [] k v = [(k, v)]"
| "dict_set ((k', v') # d) k v = (if k' = k then (k', v) # d else (k', v') # dict_set d k v)"

definition dict_get :: "pydict \<Rightarrow> string \<Rightarrow> pyval option" where
  "dict_get d k = map_of d k"

definition keys :: "pydict \<Rightarrow> string list" where
  "keys d = map fst d"

section \<open>Redaction of a record\<close>

text \<open>
  The loop of \<^verbatim>\<open>redact_content\<close> over the items of the copied dictionary: the state is
  the copy and the summary. Only a value that is a \<^verbatim>\<open>str\<close> is handed to
  \<^verbatim>\<open>_redact_text\<close>. Assigning to the key under the cursor changes no other item, so the
  loop meets the items of the input, in their order.
\<close>

definition redact_section :: "string \<Rightarrow> pyval \<Rightarrow> pydict \<times> string list \<Rightarrow> pydict \<times> string list" where
  "redact_section section_key section_content st =
     (case st of (redacted_content, redaction_summary) \<Rightarrow>
        (case section_content of
           PStr text \<Rightarrow>
             (case redact_text text of (redacted_text, section_redactions) \<Rightarrow>
                (dict_set redacted_content section_key (PStr redacted_text),
                 redaction_summary @ map (\<lambda>r. section_key @ '': '' @ r) section_redactions))
         | _ \<Rightarrow> st))"

fun redact_sections :: "pydict \<Rightarrow> pydict \<times> string list \<Rightarrow> pydict \<times> string list" where
  "redact_sections [] st = st"
| "redact_sections ((section_key, section_content) # items) st =
     redact_sections items (redact_section section_key section_content st)"

text \<open>
  \<^verbatim>\<open>redact_content\<close>. The reading of the clock, \<^verbatim>\<open>datetime.utcnow().isoformat()\<close>, is
  the parameter \<open>now\<close>. Nothing in the body raises on a dictionary, so the handler that
  wraps it is never entered.
\<close>

definition redact_content :: "string \<Rightarrow> pydict \<Rightarrow> pydict \<times> string list" where
  "redact_content now content =
     (case redact_sections content (content, []) of (redacted_content, redaction_summary) \<Rightarrow>
        (dict_set (dict_set redacted_content ''redaction_applied'' (PBool True))
           ''redaction_timestamp'' (PStr now),
         redaction_summary))"

section \<open>Decoding a JSON document\<close>

text \<open>
  \<^verbatim>\<open>json.loads\<close> either returns a value or raises an exception: \<^verbatim>\<open>JSONDecodeError\<close>
  where the text is not a JSON document, \<^verbatim>\<open>RecursionError\<close> where the containers of the
  document are nested deeper than the interpreter admits, and \<^verbatim>\<open>ValueError\<close> where an
  integer literal has more digits than \<^verbatim>\<open>int\<close> converts. A \<^verbatim>\<open>\u\<close> escape may denote a
  character above code point 255, which \<^typ>\<open>string\<close> cannot hold; there the model gives
  \<open>Unmodelled\<close> and says nothing about the library.
\<close>

datatype exn = JSONDecodeError | RecursionError | ValueError

datatype 'a outcome = Returned 'a | Raised exn | Unmodelled

text \<open>
  What the decoder reads of the interpreter it runs in. \<open>recursion_room\<close> is the number of
  containers, one inside the other, that the recursion limit still admits at the place
  where \<^verbatim>\<open>json.loads\<close> is called (the scanner enters one guarded call for every object
  and every array that it opens, and none for a string, a number or a constant).
  \<open>max_str_digits\<close> is \<^verbatim>\<open>sys.get_int_max_str_digits()\<close>: 4300 unless it has been set,
  and 0 where there is no limit.
\<close>

record interpreter =
  recursion_room :: nat
  max_str_digits :: nat

definition json_ws :: "char \<Rightarrow> bool" where
  "json_ws c = (c = CHR '' '' \<or> c = CHR 0x09 \<or> c = CHR 0x0A \<or> c = CHR 0x0D)"

definition skip_ws :: "string \<Rightarrow> string" where
  "skip_ws s = dropWhile json_ws s"

definition hexval :: "char \<Rightarrow> nat option" where
  "hexval c =
     (let n = code c
      in if in_range 48 57 n then Some (n - 48)
         else if in_range 65 70 n then Some (n - 55)
         else if in_range 97 102 n then Some (n - 87)
         else None)"

definition hex4 :: "char \<Rightarrow> char \<Rightarrow> char \<Rightarrow> char \<Rightarrow> nat option" where
  "hex4 a b c d =
     (case (hexval a, hexval b, hexval c, hexval d) of
        (Some x, Some y, Some z, Some w) \<Rightarrow> Some (((x * 16 + y) * 16 + z) * 16 + w)
      | _ \<Rightarrow> None)"

definition escape :: "char \<Rightarrow> char option" where
  "escape e =
     (if e = CHR ''\"'' \<or> e = CHR 0x5C \<or> e = CHR ''/'' then Some e
      else if e = CHR ''b'' then Some (CHR 0x08)
      else if e = CHR ''f'' then Some (CHR 0x0C)
      else if e = CHR ''n'' then Some (CHR 0x0A)
      else if e = CHR ''r'' then Some (CHR 0x0D)
      else if e = CHR ''t'' then Some (CHR 0x09)
      else None)"

text \<open>
  The body of a string literal, from behind the opening quote: the text up to the closing
  quote with the escapes resolved, and what follows. Control characters are refused
  (the decoder is strict).
\<close>

fun scanstring :: "string \<Rightarrow> string \<Rightarrow> (string \<times> string) outcome" where
  "scanstring acc [] = Raised JSONDecodeError"
| "scanstring acc (c # cs) =
     (if c = CHR ''\"'' then Returned (rev acc, cs)
      else if c = CHR 0x5C then
        (case cs of
           [] \<Rightarrow> Raised JSONDecodeError
         | e # cs' \<Rightarrow>
             if e = CHR ''u'' then
               (case cs' of
                  h1 # h2 # h3 # h4 # cs'' \<Rightarrow>
                    (case hex4 h1 h2 h3 h4 of
                       None \<Rightarrow> Raised JSONDecodeError
                     | Some n \<Rightarrow> if n < 256 then scanstring (char_of n # acc) cs'' else Unmodelled)
                | _ \<Rightarrow> Raised JSONDecodeError)
             else (case escape e of
                     None \<Rightarrow> Raised JSONDecodeError
                   | Some x \<Rightarrow> scanstring (x # acc) cs'))
      else if code c < 32 then Raised JSONDecodeError
      else scanstring (c # acc) cs)"

text \<open>
  A number, by the expression \<^verbatim>\<open>(-?(?:0|[1-9]\d*))(\.\d+)?([eE][-+]?\d+)?\<close>: an integer
  when there is neither fraction nor exponent, a float otherwise. The integer is made by
  \<^verbatim>\<open>int\<close>, which raises \<^verbatim>\<open>ValueError\<close> when the literal has more digits than the limit
  (the sign is not counted); a float has no such limit.
\<close>

definition digits_value :: "string \<Rightarrow> int" where
  "digits_value ds = foldl (\<lambda>n d. 10 * n + int (code d - 48)) 0 ds"

definition scan_sign :: "string \<Rightarrow> string \<times> string" where
  "scan_sign s = (case s of [] \<Rightarrow> ([], s) | c # cs \<Rightarrow> if c = CHR ''-'' then ([c], cs) else ([], s))"

definition scan_integer :: "string \<Rightarrow> (string \<times> string) option" where
  "scan_integer s =
     (case s of
        [] \<Rightarrow> None
      | c # cs \<Rightarrow>
          if c = CHR ''0'' then Some ([c], cs)
          else if is_digit c then Some (c # takeWhile is_digit cs, dropWhile is_digit cs)
          else None)"

definition scan_fraction :: "string \<Rightarrow> string \<times> string" where
  "scan_fraction s =
     (case s of
        p # d # cs \<Rightarrow>
          if p = CHR ''.'' \<and> is_digit d
          then (p # d # takeWhile is_digit cs, dropWhile is_digit cs) else ([], s)
      | _ \<Rightarrow> ([], s))"

definition scan_exponent :: "string \<Rightarrow> string \<times> string" where
  "scan_exponent s =
     (case s of
        e # d # cs \<Rightarrow>
          if e = CHR ''e'' \<or> e = CHR ''E'' then
            (if is_digit d then (e # d # takeWhile is_digit cs, dropWhile is_digit cs)
             else if d = CHR ''-'' \<or> d = CHR ''+'' then
               (case cs of
                  d' # cs' \<Rightarrow>
                    if is_digit d'
                    then (e # d # d' # takeWhile is_digit cs', dropWhile is_digit cs') else ([], s)
                | [] \<Rightarrow> ([], s))
             else ([], s))
          else ([], s)
      | _ \<Rightarrow> ([], s))"

definition scan_number :: "nat \<Rightarrow> string \<Rightarrow> (pyval \<times> string) outcome option" where
  "scan_number max_digits s =
     (case scan_sign s of (sign, s1) \<Rightarrow>
        (case scan_integer s1 of
           None \<Rightarrow> None
         | Some (ds, s2) \<Rightarrow>
             (case scan_fraction s2 of (frac, s3) \<Rightarrow>
                (case scan_exponent s3 of (ex, s4) \<Rightarrow>
                   if frac = [] \<and> ex = [] then
                     (if 0 < max_digits \<and> max_digits < length ds then Some (Raised ValueError)
                      else Some (Returned
                        (PInt (if sign = [] then digits_value ds else - digits_value ds), s4)))
                   else Some (Returned (PFloat (sign @ ds @ frac @ ex), s4))))))"

definition after_prefix :: "string \<Rightarrow> string \<Rightarrow> string option" where
  "after_prefix p s = (if take (length p) s = p then Some (drop (length p) s) else None)"

fun scan_constant :: "(string \<times> pyval) list \<Rightarrow> string \<Rightarrow> (pyval \<times> string) option" where
  "scan_constant [] s = None"
| "scan_constant ((p, v) # rest) s =
     (case after_prefix p s of Some r \<Rightarrow> Some (v, r) | None \<Rightarrow> scan_constant rest s)"

text \<open>
  A value that is not a container: a string, a constant or a number, tried in the order
  of the library's scanner.
\<close>

definition scan_atom :: "nat \<Rightarrow> string \<Rightarrow> (pyval \<times> string) outcome" where
  "scan_atom max_digits s =
     (case s of
        [] \<Rightarrow> Raised JSONDecodeError
      | c # cs \<Rightarrow>
          if c = CHR ''\"'' then
            (case scanstring [] cs of
               Returned (t, r) \<Rightarrow> Returned (PStr t, r)
             | Raised e \<Rightarrow> Raised e
             | Unmodelled \<Rightarrow> Unmodelled)
          else
            (case scan_constant [(''null'', PNone), (''true'', PBool True), (''false'', PBool False)] s of
               Some x \<Rightarrow> Returned x
             | None \<Rightarrow>
                 (case scan_number max_digits s of
                    Some x \<Rightarrow> x
                  | None \<Rightarrow>
                      (case scan_constant [(''NaN'', PFloat ''nan''), (''Infinity'', PFloat ''inf''),
                                           (''-Infinity'', PFloat ''-inf'')] s of
                         Some x \<Rightarrow> Returned x
                       | None \<Rightarrow> Raised JSONDecodeError))))"

text \<open>
  The key of a member, from behind its opening quote: the key and the text behind the
  colon and the white space after it.
\<close>

definition scan_key :: "string \<Rightarrow> (string \<times> string) outcome" where
  "scan_key s =
     (case scanstring [] s of
        Returned (k, r) \<Rightarrow>
          (case skip_ws r of
             [] \<Rightarrow> Raised JSONDecodeError
           | c # r' \<Rightarrow> if c = CHR '':'' then Returned (k, skip_ws r') else Raised JSONDecodeError)
      | Raised e \<Rightarrow> Raised e
      | Unmodelled \<Rightarrow> Unmodelled)"

lemma skip_ws_length: "length (skip_ws s) \<le> length s"
  by (simp add: skip_ws_def length_dropWhile_le)

lemma scanstring_length: "scanstring acc s = Returned (t, r) \<Longrightarrow> length r < length s"
proof (induction acc s rule: scanstring.induct)
  case (1 acc)
  then show ?case by simp
next
  case (2 acc c cs)
  show ?case
  proof (cases "c = CHR ''\"''")
    case True
    with 2 show ?thesis by simp
  next
    case nq: False
    show ?thesis
    proof (cases "c = CHR 0x5C")
      case True
      show ?thesis
      proof (cases cs)
        case Nil
        with "2.prems" nq True show ?thesis by simp
      next
        case (Cons e cs')
        show ?thesis
        proof (cases "e = CHR ''u''")
          case u: True
          from "2.prems" nq True Cons u obtain h1 h2 h3 h4 cs'' where
            c: "cs' = h1 # h2 # h3 # h4 # cs''"
            by (simp split: list.splits)
          from "2.prems" nq True Cons u c obtain n where
            h: "hex4 h1 h2 h3 h4 = Some n" and n: "n < 256"
            and s: "scanstring (char_of n # acc) cs'' = Returned (t, r)"
            by (simp split: option.splits if_splits)
          from "2.IH"(1)[OF nq True Cons u c refl refl refl h n s] c Cons show ?thesis by simp
        next
          case nu: False
          from "2.prems" nq True Cons nu obtain x where
            x: "escape e = Some x" and s: "scanstring (x # acc) cs' = Returned (t, r)"
            by (simp split: option.splits)
          from "2.IH"(2)[OF nq True Cons nu x s] Cons show ?thesis by simp
        qed
      qed
    next
      case False
      with "2.prems" nq have c: "\<not> code c < 32" and s: "scanstring (c # acc) cs = Returned (t, r)"
        by (simp_all split: if_splits)
      from "2.IH"(3)[OF nq False c s] show ?thesis by simp
    qed
  qed
qed

lemma scan_key_length: "scan_key s = Returned (k, r) \<Longrightarrow> length r < length s"
proof -
  assume a: "scan_key s = Returned (k, r)"
  then obtain r1 c r2 where s: "scanstring [] s = Returned (k, r1)" and w: "skip_ws r1 = c # r2"
    and r: "r = skip_ws r2"
    by (auto simp: scan_key_def split: outcome.splits list.splits if_splits)
  from w skip_ws_length[of r1] have "length r2 < length r1" by simp
  with skip_ws_length[of r2] scanstring_length[OF s] r show ?thesis by simp
qed

lemma after_prefix_length: "after_prefix p s = Some r \<Longrightarrow> p \<noteq> [] \<Longrightarrow> s \<noteq> [] \<Longrightarrow> length r < length s"
  by (auto simp: after_prefix_def split: if_splits)

lemma scan_number_length: "scan_number n s = Some (Returned (v, r)) \<Longrightarrow> length r < length s"
proof -
  assume a: "scan_number n s = Some (Returned (v, r))"
  obtain sg s1 where sg: "scan_sign s = (sg, s1)" by (cases "scan_sign s")
  from a sg obtain ds s2 where i: "scan_integer s1 = Some (ds, s2)"
    by (auto simp: scan_number_def split: option.splits)
  obtain fr s3 where f: "scan_fraction s2 = (fr, s3)" by (cases "scan_fraction s2")
  obtain ex s4 where e: "scan_exponent s3 = (ex, s4)" by (cases "scan_exponent s3")
  from a sg i f e have r: "r = s4" by (auto simp: scan_number_def split: if_splits)
  from sg have 1: "length s1 \<le> length s" by (auto simp: scan_sign_def split: list.splits if_splits)
  from i have 2: "length s2 < length s1"
    using length_dropWhile_le[of is_digit]
    by (auto simp: scan_integer_def less_Suc_eq_le split: list.splits if_splits)
  from f have 3: "length s3 \<le> length s2"
    using length_dropWhile_le[of is_digit]
    by (auto simp: scan_fraction_def le_SucI split: list.splits if_splits)
  from e have 4: "length s4 \<le> length s3"
    using length_dropWhile_le[of is_digit]
    by (auto simp: scan_exponent_def le_SucI split: list.splits if_splits)
  from 1 2 3 4 r show ?thesis by simp
qed


lemma scan_constant_length:
  "scan_constant cs s = Some (v, r) \<Longrightarrow> \<forall>(p, v) \<in> set cs. p \<noteq> [] \<Longrightarrow> s \<noteq> [] \<Longrightarrow>
   length r < length s"
proof (induction cs)
  case Nil
  then show ?case by simp
next
  case (Cons pv cs)
  obtain p v' where pv: "pv = (p, v')" by (cases pv)
  show ?case
  proof (cases "after_prefix p s")
    case None
    with Cons pv show ?thesis by simp
  next
    case (Some r')
    with Cons.prems pv have "r' = r" "p \<noteq> []" by auto
    with after_prefix_length[OF Some] Cons.prems(3) show ?thesis by simp
  qed
qed

lemma scan_atom_length: "scan_atom n s = Returned (v, r) \<Longrightarrow> length r < length s"
proof (cases s)
  case Nil
  assume "scan_atom n s = Returned (v, r)"
  with Nil show ?thesis by (simp add: scan_atom_def)
next
  case (Cons c cs)
  assume a: "scan_atom n s = Returned (v, r)"
  have ne: "s \<noteq> []" using Cons by simp
  show ?thesis
  proof (cases "c = CHR ''\"''")
    case True
    with a Cons obtain t where "scanstring [] cs = Returned (t, r)"
      by (auto simp: scan_atom_def split: outcome.splits)
    from scanstring_length[OF this] Cons show ?thesis by simp
  next
    case False
    let ?c1 = "[(''null'', PNone), (''true'', PBool True), (''false'', PBool False)]"
    let ?c2 = "[(''NaN'', PFloat ''nan''), (''Infinity'', PFloat ''inf''), (''-Infinity'', PFloat ''-inf'')]"
    from a Cons False have
      "scan_constant ?c1 s = Some (v, r) \<or> scan_number n s = Some (Returned (v, r))
       \<or> scan_constant ?c2 s = Some (v, r)"
      unfolding scan_atom_def by (simp split: option.splits)
    then show ?thesis
    proof (elim disjE)
      assume "scan_constant ?c1 s = Some (v, r)"
      from scan_constant_length[OF this _ ne] show ?thesis by simp
    next
      assume "scan_number n s = Some (Returned (v, r))"
      then show ?thesis by (rule scan_number_length)
    next
      assume "scan_constant ?c2 s = Some (v, r)"
      from scan_constant_length[OF this _ ne] show ?thesis by simp
    qed
  qed
qed

text \<open>
  The decoder reads the document once, with a stack of the containers that are open: an
  array with the elements read so far (last first), or an object with the members read
  so far and the key whose value is being read. \<open>read_value\<close> stands at the start of a
  value; \<open>reduce\<close> stands behind a value that is complete. In the library the stack is
  the call stack: an object or an array is opened by a guarded recursive call, which
  raises \<^verbatim>\<open>RecursionError\<close> when as many containers are open as the interpreter admits.
\<close>

datatype frame = InArr "pyval list" | InObj pydict string

function read_value :: "interpreter \<Rightarrow> frame list \<Rightarrow> string \<Rightarrow> pyval outcome"
  and reduce :: "interpreter \<Rightarrow> frame list \<Rightarrow> pyval \<Rightarrow> string \<Rightarrow> pyval outcome" where
  "read_value py stk s =
     (case s of
        [] \<Rightarrow> Raised JSONDecodeError
      | c # cs \<Rightarrow>
          if c = CHR ''{'' then
            (if recursion_room py \<le> length stk then Raised RecursionError
             else
               (case skip_ws cs of
                  [] \<Rightarrow> Raised JSONDecodeError
                | c' # r \<Rightarrow>
                    if c' = CHR ''}'' then reduce py stk (PDict []) r
                    else if c' = CHR ''\"'' then
                      (case scan_key r of
                         Returned (k, r') \<Rightarrow> read_value py (InObj [] k # stk) r'
                       | Raised e \<Rightarrow> Raised e
                       | Unmodelled \<Rightarrow> Unmodelled)
                    else Raised JSONDecodeError))
          else if c = CHR ''['' then
            (if recursion_room py \<le> length stk then Raised RecursionError
             else
               (case skip_ws cs of
                  [] \<Rightarrow> Raised JSONDecodeError
                | c' # r \<Rightarrow>
                    if c' = CHR '']'' then reduce py stk (PList []) r
                    else read_value py (InArr [] # stk) (c' # r)))
          else
            (case scan_atom (max_str_digits py) s of
               Returned (v, r) \<Rightarrow> reduce py stk v r
             | Raised e \<Rightarrow> Raised e
             | Unmodelled \<Rightarrow> Unmodelled))"
| "reduce py stk v s =
     (case stk of
        [] \<Rightarrow> if skip_ws s = [] then Returned v else Raised JSONDecodeError
      | InArr vs # stk' \<Rightarrow>
          (case skip_ws s of
             [] \<Rightarrow> Raised JSONDecodeError
           | c # r \<Rightarrow>
               if c = CHR '']'' then reduce py stk' (PList (rev (v # vs))) r
               else if c = CHR '','' then read_value py (InArr (v # vs) # stk') (skip_ws r)
               else Raised JSONDecodeError)
      | InObj d k # stk' \<Rightarrow>
          (case skip_ws s of
             [] \<Rightarrow> Raised JSONDecodeError
           | c # r \<Rightarrow>
               if c = CHR ''}'' then reduce py stk' (PDict (dict_set d k v)) r
               else if c = CHR '','' then
                 (case skip_ws r of
                    [] \<Rightarrow> Raised JSONDecodeError
                  | q # r' \<Rightarrow>
                      if q = CHR ''\"'' then
                        (case scan_key r' of
                           Returned (k', r'') \<Rightarrow>
                             read_value py (InObj (dict_set d k v) k' # stk') r''
                         | Raised e \<Rightarrow> Raised e
                         | Unmodelled \<Rightarrow> Unmodelled)
                      else Raised JSONDecodeError)
               else Raised JSONDecodeError))"
  by pat_completeness auto
termination
proof (relation "measure (\<lambda>x. case x of Inl (py, stk, s) \<Rightarrow> length s
                                     | Inr (py, stk, v, s) \<Rightarrow> length s)",
       goal_cases)
  case 1
  then show ?case by simp
next
  case (2 py stk s c cs c' r)
  then show ?case using skip_ws_length[of cs] by simp
next
  case (3 py stk s c cs c' r x1 k r')
  then show ?case using skip_ws_length[of cs] scan_key_length[of r k r'] by simp
next
  case (4 py stk s c cs c' r)
  then show ?case using skip_ws_length[of cs] by simp
next
  case (5 py stk s c cs c' r)
  then show ?case using skip_ws_length[of cs] by simp
next
  case (6 py stk s c cs x1 v r)
  then show ?case using scan_atom_length[of "max_str_digits py" s v r] by auto
next
  case (7 py stk v s fr stk' vs c r)
  then show ?case using skip_ws_length[of s] by simp
next
  case (8 py stk v s fr stk' vs c r)
  then show ?case using skip_ws_length[of s] skip_ws_length[of r] by simp
next
  case (9 py stk v s fr stk' d k c r)
  then show ?case using skip_ws_length[of s] by simp
next
  case (10 py stk v s fr stk' d k c r q r' x1 k' r'')
  then show ?case using skip_ws_length[of s] skip_ws_length[of r] scan_key_length[of r' k' r''] by simp
qed

definition json_loads :: "interpreter \<Rightarrow> string \<Rightarrow> pyval outcome" where
  "json_loads py s = read_value py [] (skip_ws s)"

lemmas json_defs = json_loads_def skip_ws_def json_ws_def scan_key_def scan_atom_def after_prefix_def
  scan_number_def scan_sign_def scan_integer_def scan_fraction_def scan_exponent_def digits_value_def
  escape_def hex4_def hexval_def code_def in_range_def is_digit_def digit_code_def

section \<open>Parsing the model's response\<close>

text \<open>The pattern \<^verbatim>\<open>\{.*\}\<close>, searched with \<^verbatim>\<open>re.DOTALL\<close>, so that the dot takes any character.\<close>

definition brace_literal :: re where
  "brace_literal = cat [str ''{'', star AnyChar, str ''}'']"

definition manual_parse_response :: "string \<Rightarrow> pydict" where
  "manual_parse_response response_text =
    [ (''project_overview'', PStr ''AI extraction completed but formatting failed''),
      (''scope_of_work'', PStr (take 500 response_text @ ''...'')),
      (''deliverables'', PStr ''Not specified''),
      (''timeline'', PStr ''Not specified''),
      (''location'', PStr ''Not specified''),
      (''submission_requirements'', PStr ''Not specified''),
      (''technical_requirements'', PStr ''Not specified''),
      (''qualifications'', PStr ''Not specified''),
      (''evaluation_criteria'', PStr ''Not specified''),
      (''extracted_sections'', PList [PStr ''raw_content'']),
      (''confidence_score'', PFloat ''0.5'') ]"

text \<open>
  \<^verbatim>\<open>_parse_extraction_response\<close>: the value that \<^verbatim>\<open>json.loads\<close> returns is returned as
  it is; the handler turns a \<^verbatim>\<open>JSONDecodeError\<close> into the fallback record. The handler
  names no other exception, so a \<^verbatim>\<open>RecursionError\<close> or a \<^verbatim>\<open>ValueError\<close> of the decoder
  leaves the function.
\<close>

definition parse_extraction_response :: "interpreter \<Rightarrow> string \<Rightarrow> pyval outcome" where
  "parse_extraction_response py response_text =
     (case re_search False brace_literal response_text of
        Some json_str \<Rightarrow>
          (case json_loads py json_str of
             Returned v \<Rightarrow> Returned v
           | Raised e \<Rightarrow>
               if e = JSONDecodeError
               then Returned (PDict (manual_parse_response response_text))
               else Raised e
           | Unmodelled \<Rightarrow> Unmodelled)
      | None \<Rightarrow> Returned (PDict (manual_parse_response response_text)))"

lemmas search_defs = re_search_def brace_literal_def cat_def str_def star_def advance_def rep_count_def
  atom_ok_def code_def

lemma search_scope:
  "re_search False brace_literal ''{\"scope_of_work\": \"x\"}'' = Some ''{\"scope_of_work\": \"x\"}''"
  by (simp add: search_defs)

lemma loads_scope:
  "0 < recursion_room py \<Longrightarrow>
   json_loads py ''{\"scope_of_work\": \"x\"}'' = Returned (PDict [(''scope_of_work'', PStr ''x'')])"
  by (simp add: json_defs)

lemma search_empty_object: "re_search False brace_literal ''{}'' = Some ''{}''"
  by (simp add: search_defs)

lemma loads_empty_object: "0 < recursion_room py \<Longrightarrow> json_loads py ''{}'' = Returned (PDict [])"
  by (simp add: json_defs)

lemma search_trailing_comma: "re_search False brace_literal ''{\"a\": 1,}'' = Some ''{\"a\": 1,}''"
  by (simp add: search_defs)

lemma loads_trailing_comma:
  "0 < recursion_room py \<Longrightarrow> json_loads py ''{\"a\": 1,}'' = Raised JSONDecodeError"
  by (auto simp: json_defs)

text \<open>
  The two exceptions that the handler does not name: a document that opens more arrays
  than the interpreter admits, and an integer literal of more digits than the limit.
\<close>

lemma read_value_too_deep:
  "recursion_room py < length stk + n \<Longrightarrow> 0 < n \<Longrightarrow>
   read_value py stk (replicate n CHR ''['' @ r) = Raised RecursionError"
proof (induction n arbitrary: stk)
  case 0
  then show ?case by simp
next
  case (Suc n)
  show ?case
  proof (cases "recursion_room py \<le> length stk")
    case True
    then show ?thesis by simp
  next
    case False
    with Suc.prems obtain k where n: "n = Suc k" by (cases n) auto
    from Suc.prems have "recursion_room py < length (InArr [] # stk) + n" by simp
    from Suc.IH[OF this] n
    have "read_value py (InArr [] # stk) (replicate n CHR ''['' @ r) = Raised RecursionError"
      by simp
    with False n show ?thesis by (simp add: skip_ws_def json_ws_def)
  qed
qed

lemma json_loads_too_deep:
  "recursion_room py < n \<Longrightarrow> json_loads py (replicate n CHR ''['' @ r) = Raised RecursionError"
proof -
  assume a: "recursion_room py < n"
  then obtain k where n: "n = Suc k" by (cases n) auto
  then have "skip_ws (replicate n CHR ''['' @ r) = replicate n CHR ''['' @ r"
    by (simp add: skip_ws_def json_ws_def)
  with read_value_too_deep[of py "[]" n r] a show ?thesis by (simp add: json_loads_def)
qed

lemma json_loads_too_many_digits:
  assumes "0 < max_str_digits py" and "max_str_digits py < n"
  shows "json_loads py (replicate n CHR ''1'') = Raised ValueError"
proof -
  from assms obtain k where n: "n = Suc k" by (cases n) auto
  have d: "is_digit CHR ''1''" by (simp add: is_digit_def digit_code_def code_def in_range_def)
  have t: "takeWhile is_digit (replicate k CHR ''1'') = replicate k CHR ''1''"
    and dr: "dropWhile is_digit (replicate k CHR ''1'') = []"
    using d by (simp_all add: takeWhile_eq_all_conv)
  have i: "scan_integer (replicate n CHR ''1'') = Some (replicate n CHR ''1'', [])"
    using n d t dr by (simp add: scan_integer_def)
  have sg: "scan_sign (replicate n CHR ''1'') = ([], replicate n CHR ''1'')"
    using n by (simp add: scan_sign_def)
  have "scan_number (max_str_digits py) (replicate n CHR ''1'') = Some (Raised ValueError)"
    using assms by (simp add: scan_number_def sg i scan_fraction_def scan_exponent_def)
  then have "scan_atom (max_str_digits py) (replicate n CHR ''1'') = Raised ValueError"
    using n by (simp add: scan_atom_def after_prefix_def)
  then show ?thesis using n by (simp add: json_loads_def skip_ws_def json_ws_def)
qed

lemma search_nested: "re_search False brace_literal ''{\"a\": [[[]]]}'' = Some ''{\"a\": [[[]]]}''"
  by (simp add: search_defs)

lemma loads_nested_raises:
  "json_loads \<lparr>recursion_room = 2, max_str_digits = 4300\<rparr> ''{\"a\": [[[]]]}'' = Raised RecursionError"
  by (simp add: json_defs)

lemma parse_nested_raises:
  "parse_extraction_response \<lparr>recursion_room = 2, max_str_digits = 4300\<rparr> ''{\"a\": [[[]]]}''
     = Raised RecursionError"
  by (simp add: parse_extraction_response_def search_nested loads_nested_raises)

lemma atom_ok_chr: "atom_ok False (Chr x) c \<longleftrightarrow> c = x"
  by (auto simp: atom_ok_def code_def)

lemma m_brace_literal_nil:
  "r = [] \<or> hd r \<noteq> CHR ''{'' \<Longrightarrow> m False brace_literal (l, r, g) = []"
  by (cases r) (auto simp: brace_literal_def cat_def str_def atom_ok_chr)

lemma search_no_open_brace:
  "CHR ''{'' \<notin> set r \<Longrightarrow> search False brace_literal l r = None"
proof (induction r arbitrary: l)
  case Nil
  then show ?case by (simp add: m_brace_literal_nil)
next
  case (Cons c cs)
  then have "m False brace_literal (l, c # cs, None) = []"
    by (intro m_brace_literal_nil) auto
  with Cons show ?case by simp
qed

lemma re_search_no_open_brace:
  "CHR ''{'' \<notin> set text \<Longrightarrow> re_search False brace_literal text = None"
  by (simp add: re_search_def search_no_open_brace)

section \<open>What the loops compute\<close>

text \<open>
  The loops of \<^verbatim>\<open>redact_content\<close> and \<^verbatim>\<open>_redact_text\<close> in closed form: what becomes of
  one value, which entries one item contributes, and the patterns of the table laid out
  in the order in which the loops meet them.
\<close>

definition redact_value :: "pyval \<Rightarrow> pyval" where
  "redact_value v = (case v of PStr t \<Rightarrow> PStr (fst (redact_text t)) | _ \<Rightarrow> v)"

definition entries :: "string \<times> pyval \<Rightarrow> string list" where
  "entries kv = (case kv of (k, v) \<Rightarrow>
     (case v of PStr t \<Rightarrow> map (\<lambda>r. k @ '': '' @ r) (snd (redact_text t)) | _ \<Rightarrow> []))"

lemma redact_section_str:
  "redact_text t = (t', rs) \<Longrightarrow>
   redact_section k (PStr t) (d, s) = (dict_set d k (PStr t'), s @ map (\<lambda>r. k @ '': '' @ r) rs)"
  by (simp add: redact_section_def)

lemma redact_section_nonstr:
  "\<forall>t. v \<noteq> PStr t \<Longrightarrow> redact_section k v st = st"
  by (cases v) (auto simp: redact_section_def split: prod.splits)

lemma redact_sections_summary:
  "snd (redact_sections items (d, s)) = s @ concat (map entries items)"
proof (induction items arbitrary: d s)
  case Nil
  then show ?case by simp
next
  case (Cons kv items)
  obtain k v where kv: "kv = (k, v)" by (cases kv)
  show ?case
  proof (cases "\<exists>t. v = PStr t")
    case True
    then obtain t where t: "v = PStr t" by blast
    obtain t' rs where rt: "redact_text t = (t', rs)" by (cases "redact_text t")
    show ?thesis using kv t rt Cons.IH by (simp add: redact_section_str entries_def)
  next
    case False
    then have ns: "\<forall>t. v \<noteq> PStr t" by simp
    then have "entries (k, v) = []" by (cases v) (auto simp: entries_def)
    then show ?thesis using kv Cons.IH by (simp add: redact_section_nonstr[OF ns])
  qed
qed

lemma redact_value_nonstr: "\<forall>t. v \<noteq> PStr t \<Longrightarrow> redact_value v = v"
  by (cases v) (auto simp: redact_value_def)

lemma dict_set_fresh_prefix:
  "k \<notin> fst ` set pre \<Longrightarrow> dict_set (pre @ (k, v) # post) k v' = pre @ (k, v') # post"
  by (induction pre) auto

lemma redact_sections_content_gen:
  "distinct (map fst items) \<Longrightarrow> fst ` set pre \<inter> fst ` set items = {} \<Longrightarrow>
   fst (redact_sections items (pre @ items, s)) = pre @ map (\<lambda>(k, v). (k, redact_value v)) items"
proof (induction items arbitrary: pre s)
  case Nil
  then show ?case by simp
next
  case (Cons kv items)
  obtain k v where kv: "kv = (k, v)" by (cases kv)
  from Cons.prems kv have fresh: "k \<notin> fst ` set pre" and d: "distinct (map fst items)"
    and nk: "k \<notin> fst ` set items" by auto
  have disj: "fst ` set (pre @ [(k, redact_value v)]) \<inter> fst ` set items = {}"
    using Cons.prems kv by auto
  show ?case
  proof (cases "\<exists>t. v = PStr t")
    case True
    then obtain t where PStr: "v = PStr t" by blast
    obtain t' rs where rt: "redact_text t = (t', rs)" by (cases "redact_text t")
    have "fst (redact_sections (kv # items) (pre @ kv # items, s)) =
          fst (redact_sections items ((pre @ [(k, PStr t')]) @ items, s @ map (\<lambda>r. k @ '': '' @ r) rs))"
      using kv PStr dict_set_fresh_prefix[OF fresh] by (simp add: redact_section_str[OF rt])
    also have "\<dots> = (pre @ [(k, PStr t')]) @ map (\<lambda>(k, v). (k, redact_value v)) items"
      using disj PStr rt by (intro Cons.IH[OF d]) (simp add: redact_value_def)
    finally show ?thesis using kv PStr rt by (simp add: redact_value_def)
  next
    case False
    then have ns: "\<forall>t. v \<noteq> PStr t" by simp
    have "fst (redact_sections (kv # items) (pre @ kv # items, s)) =
          fst (redact_sections items ((pre @ [(k, v)]) @ items, s))"
      using kv by (simp add: redact_section_nonstr[OF ns])
    also have "\<dots> = (pre @ [(k, v)]) @ map (\<lambda>(k, v). (k, redact_value v)) items"
      using disj by (intro Cons.IH[OF d]) (simp add: redact_value_nonstr[OF ns])
    finally show ?thesis using kv by (simp add: redact_value_nonstr[OF ns])
  qed
qed

lemma redact_sections_content:
  "distinct (map fst content) \<Longrightarrow>
   fst (redact_sections content (content, [])) = map (\<lambda>(k, v). (k, redact_value v)) content"
  using redact_sections_content_gen[of content "[]" "[]"] by simp

lemma redact_sections_closed:
  "distinct (map fst content) \<Longrightarrow>
   redact_sections content (content, []) =
     (map (\<lambda>(k, v). (k, redact_value v)) content, concat (map entries content))"
  using redact_sections_content[of content] redact_sections_summary[of content content "[]"]
  by (simp add: prod_eq_iff)

lemma keys_dict_set:
  "map fst (dict_set d k v) = (if k \<in> set (map fst d) then map fst d else map fst d @ [k])"
  by (induction d) (auto simp: rev_image_eqI)

lemma dict_get_dict_set:
  "dict_get (dict_set d k v) k' = (if k' = k then Some v else dict_get d k')"
  by (induction d) (auto simp: dict_get_def)

lemma dict_get_map_value:
  "dict_get (map (\<lambda>(k, v). (k, f v)) d) k = map_option f (dict_get d k)"
  by (induction d) (auto simp: dict_get_def)

lemma dict_get_distinct:
  "distinct (map fst d) \<Longrightarrow> (k, v) \<in> set d \<Longrightarrow> dict_get d k = Some v"
  by (simp add: dict_get_def)

definition table_order :: "(string \<times> re list) list \<Rightarrow> (string \<times> re) list" where
  "table_order table = concat (map (\<lambda>(category, patterns). map (\<lambda>p. (category, p)) patterns) table)"

fun text_in_order :: "(string \<times> re) list \<Rightarrow> string \<Rightarrow> string" where
  "text_in_order [] text = text"
| "text_in_order ((category, p) # rest) text = text_in_order rest (re_sub True p REDACTED text)"

fun summary_in_order :: "(string \<times> re) list \<Rightarrow> string \<Rightarrow> string list" where
  "summary_in_order [] text = []"
| "summary_in_order ((category, p) # rest) text =
     map (\<lambda>mt. ''Removed '' @ category @ '': '' @ mt) (re_findall True p text)
     @ summary_in_order rest (re_sub True p REDACTED text)"

lemma findall_empty_sub:
  assumes "re_findall ic e text = []"
  shows "re_sub ic e repl text = text"
proof (cases "search ic e [] text")
  case None
  then show ?thesis by (simp add: re_sub_def scan.simps)
next
  case (Some x)
  then obtain sk mt l' r' g where "search ic e [] text = Some (sk, mt, (l', r', g))"
    by (cases x) auto
  then have "re_findall ic e text \<noteq> []"
    by (simp add: re_findall_def scan.simps)
  with assms show ?thesis by simp
qed

lemma redact_pattern_closed:
  "redact_pattern c p (t, s) =
     (re_sub True p REDACTED t, s @ map (\<lambda>mt. ''Removed '' @ c @ '': '' @ mt) (re_findall True p t))"
  by (simp add: redact_pattern_def Let_def findall_empty_sub)

lemma text_in_order_append:
  "text_in_order (xs @ ys) t = text_in_order ys (text_in_order xs t)"
  by (induction xs t rule: text_in_order.induct) auto

lemma summary_in_order_append:
  "summary_in_order (xs @ ys) t = summary_in_order xs t @ summary_in_order ys (text_in_order xs t)"
  by (induction xs t rule: summary_in_order.induct) auto

lemma redact_patterns_closed:
  "redact_patterns c ps (t, s) =
     (text_in_order (map (\<lambda>p. (c, p)) ps) t, s @ summary_in_order (map (\<lambda>p. (c, p)) ps) t)"
  by (induction ps arbitrary: t s) (auto simp: redact_pattern_closed)

lemma redact_categories_closed:
  "redact_categories table (t, s) =
     (text_in_order (table_order table) t, s @ summary_in_order (table_order table) t)"
  by (induction table arbitrary: t s)
     (auto simp: table_order_def redact_patterns_closed text_in_order_append summary_in_order_append)

lemma redact_text_closed:
  "redact_text t = (text_in_order (table_order redaction_patterns) t,
                    summary_in_order (table_order redaction_patterns) t)"
  by (simp add: redact_text_def redact_categories_closed)

lemma redact_content_closed:
  "distinct (map fst content) \<Longrightarrow>
   redact_content now content =
     (dict_set (dict_set (map (\<lambda>(k, v). (k, redact_value v)) content)
        ''redaction_applied'' (PBool True)) ''redaction_timestamp'' (PStr now),
      concat (map entries content))"
  by (simp add: redact_content_def redact_sections_closed)

lemma redact_content_summary:
  "snd (redact_content now content) = concat (map entries content)"
  using redact_sections_summary[of content content "[]"]
  by (cases "redact_sections content (content, [])") (simp add: redact_content_def)

lemma redact_content_fst:
  "fst (redact_content now content) =
     dict_set (dict_set (fst (redact_sections content (content, []))) ''redaction_applied'' (PBool True))
       ''redaction_timestamp'' (PStr now)"
  by (cases "redact_sections content (content, [])") (simp add: redact_content_def)

lemma dict_set_twice: "dict_set (dict_set d k v) k v' = dict_set d k v'"
  by (induction d) auto


lemma keys_redacted:
  "keys (dict_set (dict_set d ''redaction_applied'' a) ''redaction_timestamp'' b) =
     keys d @ filter (\<lambda>k. k \<notin> set (keys d)) [''redaction_applied'', ''redaction_timestamp'']"
  by (simp add: keys_def keys_dict_set)

lemma entries_mem:
  "(k, PStr t) \<in> set content \<Longrightarrow> r \<in> set (snd (redact_text t)) \<Longrightarrow>
   k @ '': '' @ r \<in> set (concat (map entries content))"
  by (force simp: entries_def)

lemma filter_dict_set:
  "a \<noteq> k \<Longrightarrow> filter (\<lambda>(k', v'). k' \<noteq> k) (dict_set d a v) = dict_set (filter (\<lambda>(k', v'). k' \<noteq> k) d) a v"
  by (induction d) auto

lemma entries_filter:
  "distinct (map fst content) \<Longrightarrow> (k, v) \<in> set content \<Longrightarrow> \<forall>t. v \<noteq> PStr t \<Longrightarrow>
   concat (map entries (filter (\<lambda>(k', v'). k' \<noteq> k) content)) = concat (map entries content)"
proof (induction content)
  case Nil
  then show ?case by simp
next
  case (Cons kv content)
  obtain k' v' where kv: "kv = (k', v')" by (cases kv)
  show ?case
  proof (cases "k' = k")
    case True
    with Cons.prems kv have "v' = v" by (auto simp: rev_image_eqI)
    with Cons.prems(3) have e: "entries (k', v') = []" by (cases v) (auto simp: entries_def)
    from True Cons.prems kv have "k \<notin> fst ` set content" by auto
    then have "filter (\<lambda>(k', v'). k' \<noteq> k) content = content"
      by (auto simp: filter_id_conv rev_image_eqI)
    with True kv e show ?thesis by simp
  next
    case False
    with Cons kv show ?thesis by auto
  qed
qed

section \<open>Matches and their contexts\<close>

text \<open>A pattern, or a part of one, that holds no word boundary.\<close>

fun wbfree :: "re \<Rightarrow> bool" where
  "wbfree WordB = False"
| "wbfree (Seq e1 e2) = (wbfree e1 \<and> wbfree e2)"
| "wbfree (Alt e1 e2) = (wbfree e1 \<and> wbfree e2)"
| "wbfree (Grp e) = wbfree e"
| "wbfree _ = True"

text \<open>\<open>takes ic e l X r g\<close>: started before \<open>X @ r\<close>, the expression can finish behind \<open>X\<close>.\<close>

definition takes :: "bool \<Rightarrow> re \<Rightarrow> string \<Rightarrow> string \<Rightarrow> string \<Rightarrow> string option \<Rightarrow> bool" where
  "takes ic e l X r g = (\<exists>g1. (rev X @ l, r, g1) \<in> set (m ic e (l, X @ r, g)))"

lemma m_shape:
  assumes "(l1, r1, g1) \<in> set (m ic e (l, s, g))"
  obtains X where "s = X @ r1" "l1 = rev X @ l"
proof -
  from m_advances[OF assms] obtain k where "k \<le> length s" "l1 = rev (take k s) @ l" "r1 = drop k s"
    by blast
  then have "s = take k s @ r1" "l1 = rev (take k s) @ l" by simp_all
  then show ?thesis by (rule that)
qed

lemma m_takes:
  assumes "(l1, r1, g1) \<in> set (m ic e (l, s, g))"
  obtains X where "s = X @ r1" "l1 = rev X @ l" "takes ic e l X r1 g"
proof -
  from m_shape[OF assms] obtain X where X: "s = X @ r1" "l1 = rev X @ l" by blast
  with assms have "takes ic e l X r1 g" by (auto simp: takes_def)
  with X show ?thesis by (rule that)
qed

lemma takes_One:
  "takes ic (One a) l X r g \<longleftrightarrow> (\<exists>c. X = [c] \<and> atom_ok ic a c)"
proof
  assume "takes ic (One a) l X r g"
  then obtain g1 where mem: "(rev X @ l, r, g1) \<in> set (m ic (One a) (l, X @ r, g))"
    by (auto simp: takes_def)
  then obtain c cs where s: "X @ r = c # cs" and ok: "atom_ok ic a c"
    and eq: "rev X @ l = c # l" "r = cs"
    by (cases "X @ r") (auto split: if_splits)
  from eq(1) have "rev X = [c]" by (metis append_Cons append_Nil append_same_eq)
  then have "X = [c]" by (metis rev_rev_ident rev_singleton_conv)
  with ok show "\<exists>c. X = [c] \<and> atom_ok ic a c" by blast
next
  assume "\<exists>c. X = [c] \<and> atom_ok ic a c"
  then show "takes ic (One a) l X r g" by (auto simp: takes_def)
qed

lemma rep_count_ge:
  "n \<le> rep_count ic a hi s \<longleftrightarrow>
     (n \<le> length s \<and> (\<forall>c \<in> set (take n s). atom_ok ic a c) \<and> (case hi of None \<Rightarrow> True | Some h \<Rightarrow> n \<le> h))"
proof -
  have tw: "n \<le> length (takeWhile P s) \<longleftrightarrow> (n \<le> length s \<and> (\<forall>c \<in> set (take n s). P c))" for P
  proof (induction s arbitrary: n)
    case Nil
    then show ?case by simp
  next
    case (Cons x xs)
    then show ?case by (cases n) auto
  qed
  show ?thesis
    by (cases hi) (auto simp: rep_count_def Let_def tw)
qed

lemma takes_Rep:
  "takes ic (Rep a lo hi) l X r g \<longleftrightarrow>
     (lo \<le> length X \<and> (\<forall>c \<in> set X. atom_ok ic a c) \<and> (case hi of None \<Rightarrow> True | Some h \<Rightarrow> length X \<le> h))"
proof
  assume "takes ic (Rep a lo hi) l X r g"
  then obtain j where j: "lo \<le> j" "j \<le> rep_count ic a hi (X @ r)"
    and eq: "rev X @ l = rev (take j (X @ r)) @ l" "r = drop j (X @ r)"
    by (auto simp: takes_def advance_def less_Suc_eq_le simp del: upt_Suc)
  from j(2) have jl: "j \<le> length (X @ r)" by (simp add: rep_count_ge)
  from eq(1) have "rev X = rev (take j (X @ r))" by (simp only: append_same_eq)
  then have "X = take j (X @ r)" by (simp only: rev_is_rev_conv)
  then have "length X = length (take j (X @ r))" by (rule arg_cong)
  also have "\<dots> = j" using jl by simp
  finally have "j = length X" by simp
  with j show "lo \<le> length X \<and> (\<forall>c \<in> set X. atom_ok ic a c) \<and> (case hi of None \<Rightarrow> True | Some h \<Rightarrow> length X \<le> h)"
    by (simp add: rep_count_ge)
next
  assume a: "lo \<le> length X \<and> (\<forall>c \<in> set X. atom_ok ic a c) \<and> (case hi of None \<Rightarrow> True | Some h \<Rightarrow> length X \<le> h)"
  then have "length X \<le> rep_count ic a hi (X @ r)" by (simp add: rep_count_ge)
  with a have "length X \<in> set (rev [lo ..< Suc (rep_count ic a hi (X @ r))])" by auto
  then have "advance (l, X @ r, g) (length X) \<in> set (m ic (Rep a lo hi) (l, X @ r, g))"
    by (simp del: upt_Suc)
  then show "takes ic (Rep a lo hi) l X r g" by (auto simp: takes_def advance_def)
qed

lemma takes_Eps: "takes ic Eps l X r g \<longleftrightarrow> X = []"
  by (auto simp: takes_def)

lemma takes_WordB: "takes ic WordB l X r g \<longleftrightarrow> (X = [] \<and> at_boundary l r)"
  by (auto simp: takes_def)

lemma takes_Seq:
  "takes ic (Seq e1 e2) l X r g \<longleftrightarrow>
     (\<exists>X1 X2 g1. X = X1 @ X2 \<and> (rev X1 @ l, X2 @ r, g1) \<in> set (m ic e1 (l, X @ r, g))
        \<and> takes ic e2 (rev X1 @ l) X2 r g1)"
proof
  assume "takes ic (Seq e1 e2) l X r g"
  then obtain gf l2 r2 g2 where
    a: "(l2, r2, g2) \<in> set (m ic e1 (l, X @ r, g))" and b: "(rev X @ l, r, gf) \<in> set (m ic e2 (l2, r2, g2))"
    by (auto simp: takes_def)
  from m_shape[OF a] obtain X1 where X1: "X @ r = X1 @ r2" "l2 = rev X1 @ l" by blast
  from m_shape[OF b] obtain X2 where X2: "r2 = X2 @ r" "rev X @ l = rev X2 @ l2" by blast
  from X1 X2 have "X = X1 @ X2" by simp
  moreover from a X1 X2 have "(rev X1 @ l, X2 @ r, g2) \<in> set (m ic e1 (l, X @ r, g))" by simp
  moreover from b X1 X2 have "takes ic e2 (rev X1 @ l) X2 r g2" by (auto simp: takes_def)
  ultimately show "\<exists>X1 X2 g1. X = X1 @ X2 \<and> (rev X1 @ l, X2 @ r, g1) \<in> set (m ic e1 (l, X @ r, g))
        \<and> takes ic e2 (rev X1 @ l) X2 r g1" by blast
next
  assume "\<exists>X1 X2 g1. X = X1 @ X2 \<and> (rev X1 @ l, X2 @ r, g1) \<in> set (m ic e1 (l, X @ r, g))
        \<and> takes ic e2 (rev X1 @ l) X2 r g1"
  then show "takes ic (Seq e1 e2) l X r g"
    by (fastforce simp: takes_def)
qed

lemma takes_Alt:
  "takes ic (Alt e1 e2) l X r g \<longleftrightarrow> takes ic e1 l X r g \<or> takes ic e2 l X r g"
  by (auto simp: takes_def)

lemma takes_Grp:
  "takes ic (Grp e) l X r g \<longleftrightarrow> takes ic e l X r g"
  by (force simp: takes_def)

text \<open>What a part without word boundary takes does not depend on where it stands.\<close>

lemma takes_wbfree_all:
  "wbfree e \<Longrightarrow> takes ic e l X r g \<Longrightarrow> \<forall>l' r' g'. takes ic e l' X r' g'"
proof (induction e arbitrary: l X r g)
  case (Seq e1 e2)
  from Seq.prems(2) obtain X1 X2 g1 where X: "X = X1 @ X2"
    and a: "(rev X1 @ l, X2 @ r, g1) \<in> set (m ic e1 (l, X @ r, g))"
    and b: "takes ic e2 (rev X1 @ l) X2 r g1"
    by (auto simp: takes_Seq)
  from a X have a1: "takes ic e1 l X1 (X2 @ r) g" by (auto simp: takes_def)
  show ?case
  proof (intro allI)
    fix l' r' g'
    from Seq.IH(1)[OF _ a1] Seq.prems(1) have "takes ic e1 l' X1 (X2 @ r') g'" by simp
    then obtain g1' where a': "(rev X1 @ l', X2 @ r', g1') \<in> set (m ic e1 (l', X @ r', g'))"
      using X by (auto simp: takes_def)
    from Seq.IH(2)[OF _ b] Seq.prems(1) have "takes ic e2 (rev X1 @ l') X2 r' g1'" by simp
    with a' X show "takes ic (Seq e1 e2) l' X r' g'" unfolding takes_Seq by blast
  qed
qed (auto simp: takes_One takes_Rep takes_Eps takes_Alt takes_Grp)

lemma takes_wbfree:
  "wbfree e \<Longrightarrow> takes ic e l X r g \<Longrightarrow> takes ic e l' X r' g'"
  using takes_wbfree_all by blast

text \<open>
  A pattern of the table reads \<^verbatim>\<open>\b ... \b\<close>: a word boundary, parts without boundary,
  and a word boundary.
\<close>

fun ends_wb :: "re \<Rightarrow> bool" where
  "ends_wb (Seq e1 e2) = (if e1 = WordB \<and> e2 = Eps then True else wbfree e1 \<and> ends_wb e2)"
| "ends_wb _ = False"

fun bounded :: "re \<Rightarrow> bool" where
  "bounded (Seq e1 e2) = (e1 = WordB \<and> ends_wb e2)"
| "bounded _ = False"

fun minlen :: "re \<Rightarrow> nat" where
  "minlen (One a) = 1"
| "minlen (Rep a lo hi) = lo"
| "minlen (Seq e1 e2) = minlen e1 + minlen e2"
| "minlen (Alt e1 e2) = min (minlen e1) (minlen e2)"
| "minlen (Grp e) = minlen e"
| "minlen _ = 0"

text \<open>\<open>never e c\<close>: no part of \<open>e\<close> takes the character \<open>c\<close>.\<close>

fun never :: "re \<Rightarrow> char \<Rightarrow> bool" where
  "never (One a) c = (\<not> atom_ok True a c)"
| "never (Rep a lo hi) c = (\<not> atom_ok True a c)"
| "never (Seq e1 e2) c = (never e1 c \<and> never e2 c)"
| "never (Alt e1 e2) c = (never e1 c \<and> never e2 c)"
| "never (Grp e) c = never e c"
| "never _ c = True"

lemma takes_ends_wb:
  "ends_wb e \<Longrightarrow> takes ic e l X r g \<Longrightarrow>
     at_boundary (rev X @ l) r \<and> (\<forall>l' r' g'. at_boundary (rev X @ l') r' \<longrightarrow> takes ic e l' X r' g')"
proof (induction e arbitrary: l X r g)
  case (Seq e1 e2)
  show ?case
  proof (cases "e1 = WordB \<and> e2 = Eps")
    case True
    with Seq.prems(2) show ?thesis
      by (auto simp: takes_Seq takes_Eps takes_def)
  next
    case False
    with Seq.prems(1) have w: "wbfree e1" and e: "ends_wb e2" by auto
    from Seq.prems(2) obtain X1 X2 g1 where X: "X = X1 @ X2"
      and a: "(rev X1 @ l, X2 @ r, g1) \<in> set (m ic e1 (l, X @ r, g))"
      and b: "takes ic e2 (rev X1 @ l) X2 r g1"
      by (auto simp: takes_Seq)
    from a X have a1: "takes ic e1 l X1 (X2 @ r) g" by (auto simp: takes_def)
    from Seq.IH(2)[OF e b] have
      bd: "at_boundary (rev X2 @ rev X1 @ l) r"
      and tr: "\<And>l' r' g'. at_boundary (rev X2 @ l') r' \<Longrightarrow> takes ic e2 l' X2 r' g'"
      by auto
    have "takes ic (Seq e1 e2) l' X r' g'" if bd': "at_boundary (rev X @ l') r'" for l' r' g'
    proof -
      from takes_wbfree[OF w a1] have "takes ic e1 l' X1 (X2 @ r') g'" .
      then obtain g1' where a': "(rev X1 @ l', X2 @ r', g1') \<in> set (m ic e1 (l', X @ r', g'))"
        using X by (auto simp: takes_def)
      from bd' X have "at_boundary (rev X2 @ rev X1 @ l') r'" by simp
      from tr[OF this] have "takes ic e2 (rev X1 @ l') X2 r' g1'" .
      with a' X show ?thesis unfolding takes_Seq by blast
    qed
    with bd X show ?thesis by simp
  qed
qed simp_all

text \<open>
  Whether a bounded pattern takes a text depends on the text and on whether there is a
  word boundary at its two ends.
\<close>

lemma takes_bounded:
  assumes "bounded p" and "takes ic p l X r g"
  shows "at_boundary l (X @ r)" and "at_boundary (rev X @ l) r"
    and "\<And>l' r' g'. at_boundary l' (X @ r') \<Longrightarrow> at_boundary (rev X @ l') r' \<Longrightarrow> takes ic p l' X r' g'"
proof -
  from assms(1) obtain e2 where p: "p = Seq WordB e2" and e: "ends_wb e2"
    by (cases p) auto
  from assms(2) p have b1: "at_boundary l (X @ r)" and t: "takes ic e2 l X r g"
    by (auto simp: takes_Seq split: if_splits)
  from takes_ends_wb[OF e t] have
    b2: "at_boundary (rev X @ l) r"
    and tr: "\<And>l' r' g'. at_boundary (rev X @ l') r' \<Longrightarrow> takes ic e2 l' X r' g'"
    by auto
  show "at_boundary l (X @ r)" by (rule b1)
  show "at_boundary (rev X @ l) r" by (rule b2)
  show "takes ic p l' X r' g'" if "at_boundary l' (X @ r')" "at_boundary (rev X @ l') r'" for l' r' g'
  proof -
    from tr[OF that(2)] have "takes ic e2 l' X r' g'" .
    with that(1) show ?thesis
      unfolding p takes_Seq by (intro exI[of _ "[]"] exI[of _ X] exI[of _ g']) simp
  qed
qed

lemma takes_minlen: "takes ic e l X r g \<Longrightarrow> minlen e \<le> length X"
proof (induction e arbitrary: l X r g)
  case (Seq e1 e2)
  from Seq.prems obtain X1 X2 g1 where X: "X = X1 @ X2"
    and a: "(rev X1 @ l, X2 @ r, g1) \<in> set (m ic e1 (l, X @ r, g))"
    and b: "takes ic e2 (rev X1 @ l) X2 r g1"
    by (auto simp: takes_Seq)
  from a X have "takes ic e1 l X1 (X2 @ r) g" by (auto simp: takes_def)
  with Seq.IH b X show ?case by fastforce
qed (auto simp: takes_One takes_Rep takes_Eps takes_Alt takes_Grp takes_WordB min_le_iff_disj)

lemma takes_never: "never e c \<Longrightarrow> takes True e l X r g \<Longrightarrow> c \<notin> set X"
proof (induction e arbitrary: l X r g)
  case (Seq e1 e2)
  from Seq.prems obtain X1 X2 g1 where X: "X = X1 @ X2"
    and a: "(rev X1 @ l, X2 @ r, g1) \<in> set (m True e1 (l, X @ r, g))"
    and b: "takes True e2 (rev X1 @ l) X2 r g1"
    by (auto simp: takes_Seq)
  from a X have "takes True e1 l X1 (X2 @ r) g" by (auto simp: takes_def)
  with Seq.IH Seq.prems(1) b X show ?case by fastforce
qed (auto simp: takes_One takes_Rep takes_Eps takes_Alt takes_Grp takes_WordB)

text \<open>Positions at which a pattern matches, and texts in which it matches nowhere.\<close>

definition matches_at :: "re \<Rightarrow> string \<Rightarrow> string \<Rightarrow> bool" where
  "matches_at p l s = (m True p (l, s, None) \<noteq> [])"

definition clean_from :: "re \<Rightarrow> string \<Rightarrow> string \<Rightarrow> bool" where
  "clean_from p l s = (\<forall>u v. s = u @ v \<longrightarrow> \<not> matches_at p (rev u @ l) v)"

lemma matches_at_takes:
  "matches_at p l s \<longleftrightarrow> (\<exists>X r. s = X @ r \<and> takes True p l X r None)"
proof
  assume "matches_at p l s"
  then obtain st where "st \<in> set (m True p (l, s, None))"
    by (cases "m True p (l, s, None)") (auto simp: matches_at_def)
  moreover obtain l1 r1 g1 where "st = (l1, r1, g1)" by (cases st)
  ultimately have "(l1, r1, g1) \<in> set (m True p (l, s, None))" by simp
  from m_takes[OF this] show "\<exists>X r. s = X @ r \<and> takes True p l X r None" by metis
next
  assume "\<exists>X r. s = X @ r \<and> takes True p l X r None"
  then show "matches_at p l s" by (auto simp: matches_at_def takes_def)
qed

lemma clean_from_Nil: "clean_from p l [] \<longleftrightarrow> \<not> matches_at p l []"
  by (simp add: clean_from_def)

lemma clean_from_Cons:
  "clean_from p l (c # cs) \<longleftrightarrow> \<not> matches_at p l (c # cs) \<and> clean_from p (c # l) cs"
proof
  assume a: "clean_from p l (c # cs)"
  then have "\<not> matches_at p (rev [] @ l) (c # cs)"
    unfolding clean_from_def by (metis append_Nil)
  moreover have "\<not> matches_at p (rev u @ c # l) v" if "cs = u @ v" for u v
  proof -
    from that have "c # cs = (c # u) @ v" by simp
    with a have "\<not> matches_at p (rev (c # u) @ l) v" unfolding clean_from_def by blast
    then show ?thesis by simp
  qed
  ultimately show "\<not> matches_at p l (c # cs) \<and> clean_from p (c # l) cs"
    by (simp add: clean_from_def)
next
  assume a: "\<not> matches_at p l (c # cs) \<and> clean_from p (c # l) cs"
  have "\<not> matches_at p (rev u @ l) v" if "c # cs = u @ v" for u v
  proof (cases u)
    case Nil
    with that a show ?thesis by simp
  next
    case (Cons c' u')
    with that have "cs = u' @ v" "c' = c" by auto
    with a Cons show ?thesis by (auto simp: clean_from_def)
  qed
  then show "clean_from p l (c # cs)" by (simp add: clean_from_def)
qed

lemma search_None: "search True p l s = None \<longleftrightarrow> clean_from p l s"
proof (induction s arbitrary: l)
  case Nil
  then show ?case by (auto simp: clean_from_Nil matches_at_def split: list.splits)
next
  case (Cons c cs)
  show ?case
  proof (cases "m True p (l, c # cs, None)")
    case Nil
    then have "search True p l (c # cs) = None \<longleftrightarrow> search True p (c # l) cs = None"
      by (auto split: option.splits)
    with Nil Cons.IH show ?thesis by (simp add: clean_from_Cons matches_at_def)
  next
    case (Cons st ms)
    then show ?thesis by (auto simp: clean_from_Cons matches_at_def split: prod.splits)
  qed
qed

lemma search_Some:
  assumes "search True p l s = Some (gap, M, (l1, r1, gr))"
  shows "s = gap @ M @ r1" and "l1 = rev M @ rev gap @ l"
    and "takes True p (rev gap @ l) M r1 None"
    and "\<And>u v. gap = u @ v \<Longrightarrow> v \<noteq> [] \<Longrightarrow> \<not> matches_at p (rev u @ l) (v @ M @ r1)"
proof -
  from search_shape[OF assms] show s: "s = gap @ M @ r1" and l1: "l1 = rev M @ rev gap @ l"
    by simp_all
  have "takes True p (rev gap @ l) M r1 None
     \<and> (\<forall>u v. gap = u @ v \<longrightarrow> v \<noteq> [] \<longrightarrow> \<not> matches_at p (rev u @ l) (v @ M @ r1))"
    using assms
  proof (induction s arbitrary: l gap)
    case Nil
    then obtain ms where ms: "m True p (l, [], None) = (l1, r1, gr) # ms" and g: "gap = []"
      by (auto split: list.splits)
    from search_shape[OF Nil.prems] g have "M = []" "r1 = []" "l1 = l" by auto
    with ms g show ?case by (auto simp: takes_def)
  next
    case (Cons c cs)
    show ?case
    proof (cases "m True p (l, c # cs, None)")
      case Nil
      with Cons.prems obtain gap' where
        s: "search True p (c # l) cs = Some (gap', M, (l1, r1, gr))" and g: "gap = c # gap'"
        by (auto split: option.splits)
      from Cons.IH[OF s] have
        t: "takes True p (rev gap' @ c # l) M r1 None"
        and n: "\<forall>u v. gap' = u @ v \<longrightarrow> v \<noteq> [] \<longrightarrow> \<not> matches_at p (rev u @ c # l) (v @ M @ r1)"
        by auto
      from search_shape[OF s] have cs: "cs = gap' @ M @ r1" by simp
      have "\<not> matches_at p (rev u @ l) (v @ M @ r1)" if "gap = u @ v" "v \<noteq> []" for u v
      proof (cases u)
        case Nil
        with that g cs have "v @ M @ r1 = c # cs" by simp
        with Nil \<open>m True p (l, c # cs, None) = []\<close> show ?thesis by (simp add: matches_at_def)
      next
        case (Cons c' u')
        with that g have "gap' = u' @ v" "c' = c" by auto
        with n that(2) Cons show ?thesis by auto
      qed
      with t g show ?thesis by simp
    next
      case (Cons st ms)
      with Cons.prems have st: "st = (l1, r1, gr)" and g: "gap = []"
        by (auto split: prod.splits)
      from search_shape[OF Cons.prems] g have "c # cs = M @ r1" "l1 = rev M @ l" by auto
      with Cons st g show ?thesis by (auto simp: takes_def)
    qed
  qed
  then show "takes True p (rev gap @ l) M r1 None"
    and "\<And>u v. gap = u @ v \<Longrightarrow> v \<noteq> [] \<Longrightarrow> \<not> matches_at p (rev u @ l) (v @ M @ r1)"
    by auto
qed

section \<open>Replacing the matches of one pattern\<close>

lemma word_before_append: "X \<noteq> [] \<Longrightarrow> word_before (X @ r) = word_before X"
  by (cases X) (auto simp: word_before_def)

lemma at_boundary_cong:
  "word_before l = word_before l' \<Longrightarrow> word_before r = word_before r' \<Longrightarrow>
   at_boundary l r = at_boundary l' r'"
  by (simp add: at_boundary_def)

lemma matches_at_left:
  assumes "bounded q" and "matches_at q l' s" and "word_before l = word_before l'"
  shows "matches_at q l s"
proof -
  from assms(2) obtain X r where s: "s = X @ r" and t: "takes True q l' X r None"
    by (auto simp: matches_at_takes)
  from takes_bounded(1,2)[OF assms(1) t] have
    b1: "at_boundary l' (X @ r)" and b2: "at_boundary (rev X @ l') r" .
  have wb: "word_before (rev X @ l) = word_before (rev X @ l')"
    using assms(3) by (cases "rev X") (auto simp: word_before_def)
  from b1 assms(3) have "at_boundary l (X @ r)" by (simp add: at_boundary_def)
  moreover from b2 wb have "at_boundary (rev X @ l) r" by (simp add: at_boundary_def)
  ultimately have "takes True q l X r None"
    by (rule takes_bounded(3)[OF assms(1) t])
  with s show ?thesis by (auto simp: matches_at_takes)
qed

text \<open>
  The left contexts of a position in the text and of the same position in the rewritten
  text: either both end in a word character or both do not, or the rewritten text has a
  placeholder there and the next character is not a word character.
\<close>

definition left_ok :: "string \<Rightarrow> string \<Rightarrow> string \<Rightarrow> bool" where
  "left_ok l l' s = (word_before l' = word_before l \<or> (\<not> word_before l' \<and> \<not> word_before s))"

lemma matches_at_left_ok:
  assumes "bounded q" and "matches_at q l' s" and "left_ok l l' s"
  shows "matches_at q l s"
proof (cases "word_before l' = word_before l")
  case True
  with matches_at_left[OF assms(1,2)] show ?thesis by simp
next
  case False
  with assms(3) have n: "\<not> word_before l'" "\<not> word_before s" by (auto simp: left_ok_def)
  from assms(2) obtain X r where s: "s = X @ r" and t: "takes True q l' X r None"
    by (auto simp: matches_at_takes)
  from takes_bounded(1)[OF assms(1) t] s have "at_boundary l' s" by simp
  with n show ?thesis by (simp add: at_boundary_def)
qed

lemma clean_from_append:
  "clean_from q l (a @ b) \<longleftrightarrow>
     (\<forall>u v. a = u @ v \<longrightarrow> v \<noteq> [] \<longrightarrow> \<not> matches_at q (rev u @ l) (v @ b)) \<and> clean_from q (rev a @ l) b"
proof (induction a arbitrary: l)
  case Nil
  then show ?case by simp
next
  case (Cons c a)
  have "(\<forall>u v. c # a = u @ v \<longrightarrow> v \<noteq> [] \<longrightarrow> \<not> matches_at q (rev u @ l) (v @ b)) \<longleftrightarrow>
        (\<not> matches_at q l (c # a @ b) \<and>
         (\<forall>u v. a = u @ v \<longrightarrow> v \<noteq> [] \<longrightarrow> \<not> matches_at q (rev u @ c # l) (v @ b)))"
    (is "?L \<longleftrightarrow> ?R")
  proof
    assume L: ?L
    then have "\<not> matches_at q (rev [] @ l) ((c # a) @ b)" by blast
    moreover have "\<not> matches_at q (rev u @ c # l) (v @ b)" if "a = u @ v" "v \<noteq> []" for u v
    proof -
      from that have "c # a = (c # u) @ v" by simp
      with L that(2) have "\<not> matches_at q (rev (c # u) @ l) (v @ b)" by blast
      then show ?thesis by simp
    qed
    ultimately show ?R by simp
  next
    assume R: ?R
    have "\<not> matches_at q (rev u @ l) (v @ b)" if "c # a = u @ v" "v \<noteq> []" for u v
    proof (cases u)
      case Nil
      with that R show ?thesis by auto
    next
      case (Cons c' u')
      with that have "a = u' @ v" "c' = c" by auto
      with R that(2) Cons show ?thesis by auto
    qed
    then show ?L by blast
  qed
  with Cons.IH[of "c # l"] show ?case by (simp add: clean_from_Cons)
qed

lemma clean_from_left_ok:
  assumes "bounded q" and "clean_from q l s" and "left_ok l l' s"
  shows "clean_from q l' s"
  unfolding clean_from_def
proof (intro allI impI)
  fix u v
  assume s: "s = u @ v"
  show "\<not> matches_at q (rev u @ l') v"
  proof
    assume a: "matches_at q (rev u @ l') v"
    have "left_ok (rev u @ l) (rev u @ l') v"
    proof (cases u rule: rev_cases)
      case Nil
      with assms(3) s show ?thesis by simp
    next
      case (snoc u' c)
      then show ?thesis by (simp add: left_ok_def word_before_def)
    qed
    from matches_at_left_ok[OF assms(1) a this] assms(2) s show False
      by (auto simp: clean_from_def)
  qed
qed

text \<open>
  What makes replacing matches by the placeholder harmless for a pattern \<open>q\<close>: a match of
  \<open>q\<close> that starts before a placeholder was a match before the replacement, and no
  match of \<open>q\<close> starts inside a placeholder.
\<close>

definition gap_transfer :: "re \<Rightarrow> bool" where
  "gap_transfer q = (\<forall>L L' v M r1 t. v \<noteq> [] \<longrightarrow> M \<noteq> [] \<longrightarrow> left_ok L L' (v @ M @ r1) \<longrightarrow>
     at_boundary (rev v @ L) (M @ r1) \<longrightarrow> matches_at q L' (v @ REDACTED @ t) \<longrightarrow>
     matches_at q L (v @ M @ r1))"

definition placeholder_safe :: "re \<Rightarrow> bool" where
  "placeholder_safe q = (\<forall>u v L t. REDACTED = u @ v \<longrightarrow> v \<noteq> [] \<longrightarrow> \<not> matches_at q (rev u @ L) (v @ t))"

definition stable :: "re \<Rightarrow> bool" where
  "stable q = (bounded q \<and> 1 \<le> minlen q \<and> gap_transfer q \<and> placeholder_safe q)"

lemma sub_clean:
  assumes q: "stable q" and p: "bounded p" "1 \<le> minlen p"
  shows "q = p \<or> clean_from q l s \<Longrightarrow> left_ok l l' s \<Longrightarrow>
         clean_from q l' (sub_text REDACTED (scan True p l s))"
proof (induction s arbitrary: l l' rule: length_induct)
  case (1 s)
  from q have bq: "bounded q" and gt: "gap_transfer q" and ps: "placeholder_safe q"
    by (auto simp: stable_def)
  show ?case
  proof (cases "search True p l s")
    case None
    then have "clean_from p l s" by (simp add: search_None)
    with "1.prems"(1) have c: "clean_from q l s" by auto
    from None have "scan True p l s = [Copy s]" by (subst scan.simps) simp
    with clean_from_left_ok[OF bq c "1.prems"(2)] show ?thesis by simp
  next
    case (Some x)
    then obtain gap M l1 r1 gr where sr: "search True p l s = Some (gap, M, (l1, r1, gr))"
      by (cases x) auto
    note f = search_Some[OF sr]
    from takes_minlen[OF f(3)] p(2) have M: "M \<noteq> []" by auto
    from takes_bounded(1,2)[OF p(1) f(3)] have
      bM1: "at_boundary (rev gap @ l) (M @ r1)" and bM2: "at_boundary (rev M @ rev gap @ l) r1" .
    from sr M have sc: "scan True p l s = Copy gap # Hit M gr # scan True p l1 r1"
      by (subst scan.simps) simp
    let ?S1 = "sub_text REDACTED (scan True p l1 r1)"
    let ?l1' = "rev REDACTED @ rev gap @ l'"
    have st: "sub_text REDACTED (scan True p l s) = gap @ REDACTED @ ?S1"
      by (simp add: sc)
    have gapclean: "\<not> matches_at q (rev u @ l) (v @ M @ r1)" if "gap = u @ v" "v \<noteq> []" for u v
    proof (cases "q = p")
      case True
      with f(4)[OF that] show ?thesis by simp
    next
      case False
      with "1.prems"(1) have "clean_from q l s" by simp
      moreover from f(1) that(1) have "s = u @ (v @ M @ r1)" by simp
      ultimately show ?thesis unfolding clean_from_def by blast
    qed
    have restclean: "q = p \<or> clean_from q l1 r1"
    proof (cases "q = p")
      case True
      then show ?thesis by simp
    next
      case False
      with "1.prems"(1) have "clean_from q l s" by simp
      with f(1) have "clean_from q l ((gap @ M) @ r1)" by simp
      then have "clean_from q (rev (gap @ M) @ l) r1" by (simp only: clean_from_append)
      with f(2) show ?thesis by simp
    qed
    have lok: "left_ok l1 ?l1' r1"
    proof -
      have n: "\<not> word_before ?l1'"
        by (simp add: REDACTED_def word_before_def is_word_def word_code_def code_def in_range_def)
      show ?thesis
      proof (cases "word_before l1")
        case True
        with bM2 f(2) have "\<not> word_before r1" by (simp add: at_boundary_def)
        with n show ?thesis by (simp add: left_ok_def)
      next
        case False
        with n show ?thesis by (simp add: left_ok_def)
      qed
    qed
    from f(1) M have "length r1 < length s" by simp
    with "1.IH" restclean lok have c3: "clean_from q ?l1' ?S1" by blast
    have c1: "\<not> matches_at q (rev u @ l') (v @ REDACTED @ ?S1)" if uv: "gap = u @ v" "v \<noteq> []" for u v
    proof
      assume a: "matches_at q (rev u @ l') (v @ REDACTED @ ?S1)"
      have lo: "left_ok (rev u @ l) (rev u @ l') (v @ M @ r1)"
      proof (cases u rule: rev_cases)
        case Nil
        with "1.prems"(2) f(1) uv show ?thesis by simp
      next
        case (snoc u' c)
        then show ?thesis by (simp add: left_ok_def word_before_def)
      qed
      from bM1 uv have "at_boundary (rev v @ rev u @ l) (M @ r1)" by simp
      with gt uv(2) M lo a have "matches_at q (rev u @ l) (v @ M @ r1)"
        unfolding gap_transfer_def by blast
      with gapclean[OF uv] show False by simp
    qed
    have c2: "\<not> matches_at q (rev u @ rev gap @ l') (v @ ?S1)" if "REDACTED = u @ v" "v \<noteq> []" for u v
      using ps that unfolding placeholder_safe_def by blast
    have "clean_from q (rev gap @ l') (REDACTED @ ?S1)"
      using c2 c3 by (simp only: clean_from_append) blast
    with c1 have "clean_from q l' (gap @ REDACTED @ ?S1)"
      by (simp only: clean_from_append) blast
    with st show ?thesis by simp
  qed
qed

lemma prefix_before:
  assumes "v @ c # w = X @ r" and "c \<notin> set X"
  obtains v2 where "v = X @ v2" "r = v2 @ c # w"
proof -
  from assms(1) consider us where "v = X @ us" "us @ c # w = r" | us where "v @ us = X" "c # w = us @ r"
    by (auto simp: append_eq_append_conv2)
  then show ?thesis
  proof cases
    case 1
    then show ?thesis using that by blast
  next
    case 2
    show ?thesis
    proof (cases us)
      case Nil
      with 2 that[of "[]"] show ?thesis by simp
    next
      case (Cons c' us')
      with 2 have "c \<in> set X" by auto
      with assms(2) show ?thesis by simp
    qed
  qed
qed

lemma word_before_rev_append: "X \<noteq> [] \<Longrightarrow> word_before (rev X @ l) = word_before (rev X)"
  by (simp add: word_before_append)

text \<open>
  Patterns that take neither bracket and match nowhere in the placeholder: all of the
  table but the two for web addresses.
\<close>

lemma gap_transfer_never:
  assumes b: "bounded q" and n1: "1 \<le> minlen q" and nv: "never q CHR ''[''"
  shows "gap_transfer q"
  unfolding gap_transfer_def
proof (intro allI impI)
  fix L L' v M r1 t
  assume v: "v \<noteq> []" and M: "M \<noteq> ([]::string)" and lo: "left_ok L L' (v @ M @ r1)"
    and bM: "at_boundary (rev v @ L) (M @ r1)" and a: "matches_at q L' (v @ REDACTED @ t)"
  from a obtain X r where eq: "v @ REDACTED @ t = X @ r" and tk: "takes True q L' X r None"
    by (auto simp: matches_at_takes)
  from takes_minlen[OF tk] n1 have X: "X \<noteq> []" by auto
  from takes_never[OF nv tk] have nX: "CHR ''['' \<notin> set X" .
  from eq have "v @ CHR ''['' # (''REDACTED]'' @ t) = X @ r" by (simp add: REDACTED_def)
  from prefix_before[OF this nX] obtain v2 where v2: "v = X @ v2" "r = v2 @ CHR ''['' # ''REDACTED]'' @ t"
    by blast
  from takes_bounded(1,2)[OF b tk] have
    b1: "at_boundary L' (X @ r)" and b2: "at_boundary (rev X @ L') r" .
  have l: "at_boundary L (X @ v2 @ M @ r1)"
  proof (cases "word_before L' = word_before L")
    case True
    with b1 X show ?thesis by (simp add: at_boundary_def word_before_append)
  next
    case False
    with lo have "\<not> word_before L'" "\<not> word_before (v @ M @ r1)" by (auto simp: left_ok_def)
    with v2 X b1 show ?thesis by (simp add: at_boundary_def word_before_append)
  qed
  have r: "at_boundary (rev X @ L) (v2 @ M @ r1)"
  proof (cases "v2 = []")
    case True
    with bM v2 show ?thesis by simp
  next
    case False
    with b2 v2 X show ?thesis
      by (simp add: at_boundary_def word_before_append)
  qed
  from takes_bounded(3)[OF b tk l r] have "takes True q L X (v2 @ M @ r1) None" .
  with v2 show "matches_at q L (v @ M @ r1)" by (auto simp: matches_at_takes)
qed

lemma placeholder_safe_never:
  assumes b: "bounded q" and n1: "1 \<le> minlen q" and nv1: "never q CHR ''[''" and nv2: "never q CHR '']''"
    and cl: "clean_from q [] REDACTED"
  shows "placeholder_safe q"
  unfolding placeholder_safe_def
proof (intro allI impI notI)
  fix u v L t
  assume uv: "REDACTED = u @ v" and v: "v \<noteq> ([]::string)" and a: "matches_at q (rev u @ L) (v @ t)"
  from a obtain X r where eq: "v @ t = X @ r" and tk: "takes True q (rev u @ L) X r None"
    by (auto simp: matches_at_takes)
  from takes_minlen[OF tk] n1 have X: "X \<noteq> []" by auto
  from takes_never[OF nv1 tk] have nX1: "CHR ''['' \<notin> set X" .
  from takes_never[OF nv2 tk] have nX2: "CHR '']'' \<notin> set X" .
  show False
  proof (cases "u = []")
    case True
    with uv have "v = CHR ''['' # ''REDACTED]''" by (simp add: REDACTED_def)
    with eq X nX1 show False by (cases X) auto
  next
    case False
    from uv v have "last v = CHR '']''"
      by (metis REDACTED_def last_appendR last.simps list.distinct(1))
    with v obtain v0 where v0: "v = v0 @ [CHR '']'']" by (metis append_butlast_last_id)
    with eq have "v0 @ CHR '']'' # t = X @ r" by simp
    from prefix_before[OF this nX2] obtain w where w: "v0 = X @ w" "r = w @ CHR '']'' # t" by blast
    from takes_bounded(1,2)[OF b tk] have
      b1: "at_boundary (rev u @ L) (X @ r)" and b2: "at_boundary (rev X @ rev u @ L) r" .
    from False have "word_before (rev u @ L) = word_before (rev u)"
      by (simp add: word_before_append)
    with b1 X have l: "at_boundary (rev u) (X @ w @ '']'')"
      by (simp add: at_boundary_def word_before_append)
    have "word_before (w @ CHR '']'' # t) = word_before (w @ '']'')"
      by (cases w) (simp_all add: word_before_def)
    with b2 X w have r: "at_boundary (rev X @ rev u) (w @ '']'')"
      by (simp add: at_boundary_def word_before_append)
    from takes_bounded(3)[OF b tk l r] have "takes True q (rev u) X (w @ '']'') None" .
    with v0 w have "matches_at q (rev u @ []) v" by (auto simp: matches_at_takes)
    with cl uv show False unfolding clean_from_def by blast
  qed
qed

section \<open>The patterns for web addresses\<close>

text \<open>
  The two patterns for web addresses read \<^verbatim>\<open>\b L [^\s]+ \b\<close>, where \<open>L\<close> is the fixed
  head (\<^verbatim>\<open>https?://\<close> or \<^verbatim>\<open>www\.\<close>). Their matches may run over a placeholder.
\<close>

definition nonspace :: atom where
  "nonspace = NotInSet [CSpace]"

definition web :: "re \<Rightarrow> re" where
  "web L = Seq WordB (Seq L (Seq (Rep nonspace 1 None) (Seq WordB Eps)))"

definition nonword_atom :: "atom \<Rightarrow> bool" where
  "nonword_atom a = (\<forall>c. atom_ok True a c \<longrightarrow> \<not> is_word c)"

text \<open>\<open>ends_nonword e\<close>: what \<open>e\<close> takes is not empty and ends in a character that is not a word character.\<close>

fun ends_nonword :: "re \<Rightarrow> bool" where
  "ends_nonword (One a) = nonword_atom a"
| "ends_nonword (Seq e1 e2) = (if e2 = Eps then ends_nonword e1 else ends_nonword e2)"
| "ends_nonword (Grp e) = ends_nonword e"
| "ends_nonword _ = False"

text \<open>\<open>starts_off e c\<close>: what \<open>e\<close> takes is not empty and does not start with \<open>c\<close>.\<close>

fun starts_off :: "re \<Rightarrow> char \<Rightarrow> bool" where
  "starts_off (One a) c = (\<not> atom_ok True a c)"
| "starts_off (Rep a lo hi) c = (1 \<le> lo \<and> \<not> atom_ok True a c)"
| "starts_off (Seq e1 e2) c = starts_off e1 c"
| "starts_off (Alt e1 e2) c = (starts_off e1 c \<and> starts_off e2 c)"
| "starts_off (Grp e) c = starts_off e c"
| "starts_off _ c = False"

lemma takes_ends_nonword:
  "ends_nonword e \<Longrightarrow> takes True e l X r g \<Longrightarrow> X \<noteq> [] \<and> \<not> is_word (last X)"
proof (induction e arbitrary: l X r g)
  case (One a)
  then show ?case by (auto simp: takes_One nonword_atom_def)
next
  case (Seq e1 e2)
  from Seq.prems(2) obtain X1 X2 g1 where X: "X = X1 @ X2"
    and a: "(rev X1 @ l, X2 @ r, g1) \<in> set (m True e1 (l, X @ r, g))"
    and b: "takes True e2 (rev X1 @ l) X2 r g1"
    by (auto simp: takes_Seq)
  from a X have a1: "takes True e1 l X1 (X2 @ r) g" by (auto simp: takes_def)
  show ?case
  proof (cases "e2 = Eps")
    case True
    with b have "X2 = []" by (simp add: takes_Eps)
    moreover from True Seq.prems(1) have "ends_nonword e1" by simp
    from Seq.IH(1)[OF this a1] have "X1 \<noteq> [] \<and> \<not> is_word (last X1)" .
    ultimately show ?thesis using X by simp
  next
    case False
    with Seq.prems(1) have "ends_nonword e2" by simp
    from Seq.IH(2)[OF this b] have "X2 \<noteq> [] \<and> \<not> is_word (last X2)" .
    with X show ?thesis by simp
  qed
qed (auto simp: takes_Grp)

lemma takes_starts_off:
  "starts_off e c \<Longrightarrow> takes True e l X r g \<Longrightarrow> X \<noteq> [] \<and> hd X \<noteq> c"
proof (induction e arbitrary: l X r g)
  case (Seq e1 e2)
  from Seq.prems(2) obtain X1 X2 g1 where X: "X = X1 @ X2"
    and a: "(rev X1 @ l, X2 @ r, g1) \<in> set (m True e1 (l, X @ r, g))"
    by (auto simp: takes_Seq)
  from a X have a1: "takes True e1 l X1 (X2 @ r) g" by (auto simp: takes_def)
  from Seq.prems(1) have "starts_off e1 c" by simp
  from Seq.IH(1)[OF this a1] X show ?case by simp
next
  case (Rep a lo hi)
  then have "X \<noteq> []" "\<forall>c \<in> set X. atom_ok True a c" "\<not> atom_ok True a c"
    by (auto simp: takes_Rep)
  then show ?case by (cases X) auto
next
  case (Alt e1 e2)
  from Alt.prems(1) have s: "starts_off e1 c" "starts_off e2 c" by simp_all
  from Alt.prems(2) have "takes True e1 l X r g \<or> takes True e2 l X r g" by (simp add: takes_Alt)
  then show ?case
  proof
    assume "takes True e1 l X r g"
    from Alt.IH(1)[OF s(1) this] show ?thesis .
  next
    assume "takes True e2 l X r g"
    from Alt.IH(2)[OF s(2) this] show ?thesis .
  qed
qed (auto simp: takes_One takes_Grp)

lemma atom_ok_nonspace: "atom_ok True nonspace c \<longleftrightarrow> \<not> is_space c"
  by (simp add: atom_ok_def nonspace_def is_space_def)

lemma word_not_space: "is_word c \<Longrightarrow> \<not> is_space c"
  by (auto simp: is_word_def is_space_def word_code_def space_code_def in_range_def)

lemma takes_web:
  assumes "wbfree L"
  shows "takes True (web L) l X r g \<longleftrightarrow>
     (at_boundary l (X @ r) \<and> at_boundary (rev X @ l) r \<and>
      (\<exists>lit Y. X = lit @ Y \<and> takes True L [] lit [] None \<and> Y \<noteq> [] \<and> (\<forall>c \<in> set Y. \<not> is_space c)))"
  (is "?A \<longleftrightarrow> ?B")
proof
  assume ?A
  then have b1: "at_boundary l (X @ r)" and t1: "takes True (Seq L (Seq (Rep nonspace 1 None) (Seq WordB Eps))) l X r g"
    by (auto simp: web_def takes_Seq split: if_splits)
  from t1 obtain lit Z g1 where X: "X = lit @ Z"
    and a: "(rev lit @ l, Z @ r, g1) \<in> set (m True L (l, X @ r, g))"
    and t2: "takes True (Seq (Rep nonspace 1 None) (Seq WordB Eps)) (rev lit @ l) Z r g1"
    unfolding takes_Seq[of True L] by blast
  from a X have tl: "takes True L l lit (Z @ r) g" by (auto simp: takes_def)
  from t2 obtain Y W g2 where Z: "Z = Y @ W"
    and c: "(rev Y @ rev lit @ l, W @ r, g2) \<in> set (m True (Rep nonspace 1 None) (rev lit @ l, Z @ r, g1))"
    and t3: "takes True (Seq WordB Eps) (rev Y @ rev lit @ l) W r g2"
    unfolding takes_Seq[of True "Rep nonspace 1 None"] by blast
  from c Z have ty: "takes True (Rep nonspace 1 None) (rev lit @ l) Y (W @ r) g1" by (auto simp: takes_def)
  from t3 have W: "W = []" and b2: "at_boundary (rev Y @ rev lit @ l) r"
    by (auto simp: takes_Seq takes_Eps takes_def split: if_splits)
  from ty have "Y \<noteq> []" "\<forall>c \<in> set Y. \<not> is_space c"
    by (auto simp: takes_Rep atom_ok_nonspace)
  moreover from takes_wbfree[OF assms tl] have "takes True L [] lit [] None" .
  moreover from X Z W have "X = lit @ Y" by simp
  ultimately show ?B using b1 b2 by auto
next
  assume ?B
  then obtain lit Y where b1: "at_boundary l (X @ r)" and b2: "at_boundary (rev X @ l) r"
    and X: "X = lit @ Y" and tl: "takes True L [] lit [] None" and Y: "Y \<noteq> []" "\<forall>c \<in> set Y. \<not> is_space c"
    by blast
  from takes_wbfree[OF assms tl] have "takes True L l lit (Y @ r) g" .
  then obtain g1 where a: "(rev lit @ l, Y @ r, g1) \<in> set (m True L (l, X @ r, g))"
    using X by (auto simp: takes_def)
  from Y have "takes True (Rep nonspace 1 None) (rev lit @ l) Y r g1"
    by (cases Y) (auto simp: takes_Rep atom_ok_nonspace)
  then obtain g2 where c: "(rev Y @ rev lit @ l, r, g2) \<in> set (m True (Rep nonspace 1 None) (rev lit @ l, Y @ r, g1))"
    by (auto simp: takes_def)
  from b2 X have "takes True (Seq WordB Eps) (rev Y @ rev lit @ l) [] r g2"
    by (auto simp: takes_def)
  with c have "takes True (Seq (Rep nonspace 1 None) (Seq WordB Eps)) (rev lit @ l) Y r g1"
    unfolding takes_Seq[of True "Rep nonspace 1 None"]
    by (intro exI[of _ Y] exI[of _ "[]"] exI[of _ g2]) simp
  with a X have "takes True (Seq L (Seq (Rep nonspace 1 None) (Seq WordB Eps))) l X r g"
    unfolding takes_Seq[of True L] by blast
  with b1 show ?A
    unfolding web_def takes_Seq[of True WordB]
    by (intro exI[of _ "[]"] exI[of _ X] exI[of _ g]) simp
qed

lemma word_before_rev: "X \<noteq> [] \<Longrightarrow> word_before (rev X @ l) = is_word (last X)"
  by (cases X rule: rev_cases) (simp_all add: word_before_def)

lemma word_before_hd: "X \<noteq> [] \<Longrightarrow> word_before (X @ r) = is_word (hd X)"
  by (cases X) (simp_all add: word_before_def)

lemma word_before_dropWhile: "\<not> word_before (dropWhile is_word s)"
  by (induction s) (auto simp: word_before_def)

lemma matches_at_web:
  assumes "wbfree L"
  shows "matches_at (web L) l s \<longleftrightarrow>
     (\<exists>lit Y r. s = lit @ Y @ r \<and> at_boundary l s \<and> at_boundary (rev Y @ rev lit @ l) r \<and>
        takes True L [] lit [] None \<and> Y \<noteq> [] \<and> (\<forall>c \<in> set Y. \<not> is_space c))"
  (is "?A \<longleftrightarrow> ?B")
proof
  assume ?A
  then obtain X r where s: "s = X @ r" and t: "takes True (web L) l X r None"
    unfolding matches_at_takes by blast
  from t obtain lit Y where b1: "at_boundary l (X @ r)" and b2: "at_boundary (rev X @ l) r"
    and X: "X = lit @ Y" and p: "takes True L [] lit [] None" "Y \<noteq> []" "\<forall>c \<in> set Y. \<not> is_space c"
    unfolding takes_web[OF assms] by blast
  from s X have "s = lit @ Y @ r" by simp
  moreover from b1 s have "at_boundary l s" by simp
  moreover from b2 X have "at_boundary (rev Y @ rev lit @ l) r" by simp
  ultimately show ?B using p by blast
next
  assume ?B
  then obtain lit Y r where s: "s = lit @ Y @ r" and b1: "at_boundary l s"
    and b2: "at_boundary (rev Y @ rev lit @ l) r"
    and p: "takes True L [] lit [] None" "Y \<noteq> []" "\<forall>c \<in> set Y. \<not> is_space c"
    by blast
  from s b1 have "at_boundary l ((lit @ Y) @ r)" by simp
  moreover from b2 have "at_boundary (rev (lit @ Y) @ l) r" by simp
  ultimately have "takes True (web L) l (lit @ Y) r None"
    unfolding takes_web[OF assms] using p by blast
  moreover from s have "s = (lit @ Y) @ r" by simp
  ultimately show ?A unfolding matches_at_takes by blast
qed

lemma gap_transfer_web:
  assumes w: "wbfree L" and nv: "never L CHR ''[''" and en: "ends_nonword L"
  shows "gap_transfer (web L)"
  unfolding gap_transfer_def
proof (intro allI impI)
  fix L0 L0' v M r1 t
  assume v: "v \<noteq> []" and M: "M \<noteq> ([]::string)" and lo: "left_ok L0 L0' (v @ M @ r1)"
    and bM: "at_boundary (rev v @ L0) (M @ r1)" and a: "matches_at (web L) L0' (v @ REDACTED @ t)"
  from a obtain lit Y r where eq: "v @ REDACTED @ t = lit @ Y @ r"
    and b1: "at_boundary L0' (v @ REDACTED @ t)" and b2: "at_boundary (rev Y @ rev lit @ L0') r"
    and tl: "takes True L [] lit [] None" and Y: "Y \<noteq> []" "\<forall>c \<in> set Y. \<not> is_space c"
    unfolding matches_at_web[OF w] by blast
  from takes_ends_nonword[OF en tl] have lit: "lit \<noteq> []" "\<not> is_word (last lit)" by auto
  from takes_never[OF nv tl] have nl: "CHR ''['' \<notin> set lit" .
  from eq have "v @ CHR ''['' # (''REDACTED]'' @ t) = lit @ (Y @ r)" by (simp add: REDACTED_def)
  from prefix_before[OF this nl] obtain v2 where v2: "v = lit @ v2" "Y @ r = v2 @ CHR ''['' # ''REDACTED]'' @ t"
    by blast
  have l: "at_boundary L0 (v @ M @ r1)"
  proof (cases "word_before L0' = word_before L0")
    case True
    with b1 v show ?thesis by (simp add: at_boundary_def word_before_append)
  next
    case False
    with lo have "\<not> word_before L0'" "\<not> word_before (v @ M @ r1)" by (auto simp: left_ok_def)
    with v b1 show ?thesis by (simp add: at_boundary_def word_before_append)
  qed
  have "\<exists>Y' r'. v2 @ M @ r1 = Y' @ r' \<and> Y' \<noteq> [] \<and> (\<forall>c \<in> set Y'. \<not> is_space c)
          \<and> at_boundary (rev Y' @ rev lit @ L0) r'"
  proof (cases "v2 = []")
    case True
    with bM v2 have "at_boundary (rev lit @ L0) (M @ r1)" by simp
    with lit have "word_before (M @ r1)"
      by (simp add: at_boundary_def word_before_rev)
    with M have hM: "is_word (hd M)" by (simp add: word_before_hd)
    let ?Y = "takeWhile is_word (M @ r1)"
    let ?r = "dropWhile is_word (M @ r1)"
    from hM M have Yn: "?Y \<noteq> []" by (cases M) auto
    have "\<forall>c \<in> set ?Y. \<not> is_space c"
    proof
      fix c assume "c \<in> set ?Y"
      then have "is_word c" by (auto dest: set_takeWhileD)
      then show "\<not> is_space c" by (rule word_not_space)
    qed
    moreover have "at_boundary (rev ?Y @ rev lit @ L0) ?r"
    proof -
      from Yn have "last ?Y \<in> set ?Y" by (rule last_in_set)
      then have "is_word (last ?Y)" by (auto dest: set_takeWhileD)
      with word_before_rev[OF Yn, of "rev lit @ L0"] have "word_before (rev ?Y @ rev lit @ L0)"
        by blast
      moreover have "\<not> word_before ?r" by (rule word_before_dropWhile)
      ultimately show ?thesis by (simp add: at_boundary_def)
    qed
    ultimately show ?thesis using True Yn
      by (intro exI[of _ ?Y] exI[of _ ?r]) simp
  next
    case False
    from v2(2) obtain us where
      d: "(Y = v2 @ us \<and> us @ r = CHR ''['' # ''REDACTED]'' @ t) \<or> (Y @ us = v2 \<and> r = us @ CHR ''['' # ''REDACTED]'' @ t)"
      unfolding append_eq_append_conv2 by blast
    have "(\<exists>us. Y = v2 @ us) \<or> (\<exists>us. Y @ us = v2 \<and> us \<noteq> [] \<and> r = us @ CHR ''['' # ''REDACTED]'' @ t)"
    proof (cases "us = []")
      case True
      with d show ?thesis by auto
    next
      case False
      with d show ?thesis by blast
    qed
    then consider us where "Y = v2 @ us" | us where "Y @ us = v2" "us \<noteq> []" "r = us @ CHR ''['' # ''REDACTED]'' @ t"
      by blast
    then show ?thesis
    proof cases
      case 1
      with Y(2) have "\<forall>c \<in> set v2. \<not> is_space c" by simp
      moreover from bM v2 have "at_boundary (rev v2 @ rev lit @ L0) (M @ r1)" by simp
      ultimately show ?thesis using False
        by (intro exI[of _ v2] exI[of _ "M @ r1"]) simp
    next
      case 2
      have "word_before (rev Y @ rev lit @ L0) = word_before (rev Y @ rev lit @ L0')"
        using Y(1) by (simp add: word_before_rev)
      moreover have "word_before (us @ M @ r1) = word_before r"
        using 2 by (simp add: word_before_hd)
      ultimately have "at_boundary (rev Y @ rev lit @ L0) (us @ M @ r1)"
        using b2 by (simp add: at_boundary_def)
      moreover from 2 have "v2 @ M @ r1 = Y @ us @ M @ r1" by auto
      ultimately show ?thesis using Y
        by (intro exI[of _ Y] exI[of _ "us @ M @ r1"]) simp
    qed
  qed
  then obtain Y' r' where "v2 @ M @ r1 = Y' @ r'" "Y' \<noteq> []" "\<forall>c \<in> set Y'. \<not> is_space c"
    "at_boundary (rev Y' @ rev lit @ L0) r'" by blast
  with v2 l tl show "matches_at (web L) L0 (v @ M @ r1)"
    unfolding matches_at_web[OF w]
    by (intro exI[of _ lit] exI[of _ Y'] exI[of _ r']) simp
qed

lemma placeholder_safe_web:
  assumes w: "wbfree L" and so: "\<forall>c \<in> set REDACTED. starts_off L c"
  shows "placeholder_safe (web L)"
  unfolding placeholder_safe_def
proof (intro allI impI notI)
  fix u v L0 t
  assume uv: "REDACTED = u @ v" and v: "v \<noteq> ([]::string)" and a: "matches_at (web L) (rev u @ L0) (v @ t)"
  from a obtain lit Y r where eq: "v @ t = lit @ Y @ r" and tl: "takes True L [] lit [] None"
    unfolding matches_at_web[OF w] by blast
  from uv v have "hd v \<in> set REDACTED" by (metis hd_in_set in_set_conv_decomp Un_iff set_append)
  with so have "starts_off L (hd v)" by blast
  from takes_starts_off[OF this tl] have "lit \<noteq> []" "hd lit \<noteq> hd v" by auto
  with eq v show False by (cases v; cases lit) auto
qed

lemma stable_via:
  assumes "\<And>st. m True q st = m True q' st" and "bounded q" and "1 \<le> minlen q"
    and "gap_transfer q'" and "placeholder_safe q'"
  shows "stable q"
proof -
  from assms(1) have "matches_at q = matches_at q'" by (simp add: matches_at_def fun_eq_iff)
  with assms(2-) show ?thesis by (simp add: stable_def gap_transfer_def placeholder_safe_def)
qed

lemma concat_map_assoc:
  "concat (map f (concat (map h xs))) = concat (map (\<lambda>x. concat (map f (h x))) xs)"
  by (induction xs) simp_all

lemma m_Seq_assoc: "m ic (Seq (Seq a b) c) st = m ic (Seq a (Seq b c)) st"
proof -
  have "m ic (Seq b c) = (\<lambda>x. concat (map (m ic c) (m ic b x)))" by (simp add: fun_eq_iff)
  then show ?thesis by (simp add: concat_map_assoc)
qed

section \<open>The patterns of the table are stable\<close>

definition plain_ok :: "re \<Rightarrow> bool" where
  "plain_ok p = (bounded p \<and> 1 \<le> minlen p \<and> never p CHR ''['' \<and> never p CHR '']''
     \<and> search True p [] REDACTED = None)"

lemma plain_ok_stable: "plain_ok p \<Longrightarrow> stable p"
  unfolding plain_ok_def stable_def
  using gap_transfer_never placeholder_safe_never search_None by blast

lemmas pattern_defs =
  government_agencies_def contact_info_def email_pattern_def phone_pattern_def url_pattern_def
  www_pattern_def federal_codes_def specific_locations_def cat_def str_def plus_def star_def
  opt_def times_def digit_def space_def AZ_def az_def d09_def letters_space_def upper_digit_def
  upper_digit_dash_def labelled_def

lemmas check_defs = plain_ok_def REDACTED_def advance_def rep_count_def at_boundary_def
  word_before_def atom_ok_def code_def in_range_def digit_code_def space_code_def word_code_def
  lower_code_def upper_code_def is_word_def

lemma government_agencies_ok: "\<forall>p \<in> set government_agencies. plain_ok p"
  by (simp add: pattern_defs check_defs)

lemma email_phone_ok: "plain_ok email_pattern \<and> plain_ok phone_pattern"
  by (simp add: pattern_defs check_defs)

lemma federal_codes_ok: "\<forall>p \<in> set federal_codes. plain_ok p"
  by (simp add: pattern_defs check_defs)

lemma specific_locations_ok: "\<forall>p \<in> set specific_locations. plain_ok p"
  by (simp add: pattern_defs check_defs)

lemma nonword_slash: "nonword_atom (Chr CHR ''/'')"
  by (auto simp: nonword_atom_def atom_ok_def lower_code_def in_range_def is_word_def
      word_code_def code_def split: if_splits)

lemma nonword_dot: "nonword_atom (Chr CHR ''.'')"
  by (auto simp: nonword_atom_def atom_ok_def lower_code_def in_range_def is_word_def
      word_code_def code_def split: if_splits)

definition url_head :: re where
  "url_head = Seq (str ''http'') (Seq (opt (Chr CHR ''s'')) (str ''://''))"

definition www_head :: re where
  "www_head = str ''www.''"

lemma m_Seq_assoc_fun: "m ic (Seq (Seq a b) c) = m ic (Seq a (Seq b c))"
  by (rule ext) (rule m_Seq_assoc)

lemma m_Seq_cong: "m ic e2 = m ic e2' \<Longrightarrow> m ic (Seq e1 e2) = m ic (Seq e1 e2')"
  by (rule ext) simp

lemma m_url: "m True url_pattern st = m True (web url_head) st"
proof -
  let ?R = "Seq (Rep nonspace 1 None) (Seq WordB Eps)"
  have "m True (Seq url_head ?R) = m True (Seq (str ''http'') (Seq (Seq (opt (Chr CHR ''s'')) (str ''://'')) ?R))"
    unfolding url_head_def by (rule m_Seq_assoc_fun)
  also have "\<dots> = m True (Seq (str ''http'') (Seq (opt (Chr CHR ''s'')) (Seq (str ''://'') ?R)))"
    by (rule m_Seq_cong) (rule m_Seq_assoc_fun)
  finally have "m True (Seq WordB (Seq url_head ?R))
      = m True (Seq WordB (Seq (str ''http'') (Seq (opt (Chr CHR ''s'')) (Seq (str ''://'') ?R))))"
    by (rule m_Seq_cong)
  moreover have "url_pattern = Seq WordB (Seq (str ''http'') (Seq (opt (Chr CHR ''s'')) (Seq (str ''://'') ?R)))"
    by (simp add: url_pattern_def cat_def plus_def nonspace_def)
  ultimately show ?thesis by (simp only: web_def)
qed

lemma m_www: "m True www_pattern st = m True (web www_head) st"
proof -
  have "www_pattern = web www_head"
    by (simp add: www_pattern_def web_def www_head_def cat_def plus_def nonspace_def)
  then show ?thesis by simp
qed

lemmas head_defs = url_head_def www_head_def str_def opt_def REDACTED_def atom_ok_def code_def
  lower_code_def in_range_def

lemma stable_url: "stable url_pattern"
proof (rule stable_via[OF m_url])
  show "bounded url_pattern" by (simp add: pattern_defs)
  show "1 \<le> minlen url_pattern" by (simp add: pattern_defs)
  have w: "wbfree url_head" by (simp add: head_defs)
  show "gap_transfer (web url_head)"
    by (rule gap_transfer_web[OF w]) (simp_all add: head_defs nonword_slash)
  show "placeholder_safe (web url_head)"
    by (rule placeholder_safe_web[OF w]) (simp add: head_defs)
qed

lemma stable_www: "stable www_pattern"
proof (rule stable_via[OF m_www])
  show "bounded www_pattern" by (simp add: pattern_defs)
  show "1 \<le> minlen www_pattern" by (simp add: pattern_defs)
  have w: "wbfree www_head" by (simp add: head_defs)
  show "gap_transfer (web www_head)"
    by (rule gap_transfer_web[OF w]) (simp_all add: head_defs nonword_dot)
  show "placeholder_safe (web www_head)"
    by (rule placeholder_safe_web[OF w]) (simp add: head_defs)
qed

definition all_patterns :: "re list" where
  "all_patterns = map snd (table_order redaction_patterns)"

lemma all_patterns_stable: "\<forall>p \<in> set all_patterns. stable p"
  using government_agencies_ok email_phone_ok federal_codes_ok specific_locations_ok
    stable_url stable_www plain_ok_stable
  by (auto simp: all_patterns_def table_order_def redaction_patterns_def contact_info_def)

section \<open>Redacting a redacted text\<close>

lemma findall_empty_iff: "re_findall True p t = [] \<longleftrightarrow> clean_from p [] t"
proof
  assume a: "re_findall True p t = []"
  show "clean_from p [] t"
  proof (cases "search True p [] t")
    case None
    then show ?thesis by (simp add: search_None)
  next
    case (Some x)
    then obtain sk mt l' r' g where "search True p [] t = Some (sk, mt, (l', r', g))"
      by (cases x) auto
    then have "re_findall True p t \<noteq> []" by (simp add: re_findall_def scan.simps)
    with a show ?thesis by simp
  qed
next
  assume "clean_from p [] t"
  then have "search True p [] t = None" by (simp add: search_None)
  then show "re_findall True p t = []" by (simp add: re_findall_def scan.simps)
qed

lemma left_ok_refl: "left_ok l l s"
  by (simp add: left_ok_def)

lemma sub_keeps_clean:
  assumes "stable q" and "stable p" and "q = p \<or> clean_from q [] t"
  shows "clean_from q [] (re_sub True p REDACTED t)"
proof -
  from assms(2) have "bounded p" "1 \<le> minlen p" by (simp_all add: stable_def)
  from sub_clean[OF assms(1) this assms(3) left_ok_refl] show ?thesis
    by (simp add: re_sub_def)
qed

lemma text_in_order_clean:
  assumes "\<forall>p \<in> snd ` set ps. stable p" and "stable q"
    and "clean_from q [] t \<or> q \<in> snd ` set ps"
  shows "clean_from q [] (text_in_order ps t)"
  using assms
proof (induction ps arbitrary: t)
  case Nil
  then show ?case by simp
next
  case (Cons cp ps)
  obtain c p where cp: "cp = (c, p)" by (cases cp)
  from Cons.prems(1) cp have sp: "stable p" and sps: "\<forall>p \<in> snd ` set ps. stable p" by auto
  show ?case
  proof (cases "q = p \<or> clean_from q [] t")
    case True
    from sub_keeps_clean[OF Cons.prems(2) sp True]
    have "clean_from q [] (re_sub True p REDACTED t)" .
    with Cons.IH[OF sps Cons.prems(2)] cp show ?thesis by simp
  next
    case False
    with Cons.prems(3) cp have "q \<in> snd ` set ps" by auto
    with Cons.IH[OF sps Cons.prems(2)] cp show ?thesis by simp
  qed
qed

lemma clean_fixed:
  "\<forall>p \<in> snd ` set ps. clean_from p [] t \<Longrightarrow> text_in_order ps t = t \<and> summary_in_order ps t = []"
proof (induction ps)
  case Nil
  then show ?case by simp
next
  case (Cons cp ps)
  obtain c p where cp: "cp = (c, p)" by (cases cp)
  with Cons.prems have "clean_from p [] t" by simp
  then have f: "re_findall True p t = []" by (simp add: findall_empty_iff)
  then have s: "re_sub True p REDACTED t = t" by (rule findall_empty_sub)
  from Cons cp f s show ?case by simp
qed

text \<open>A text that has been redacted is left as it is, and gives no entry.\<close>

lemma redact_text_idem:
  "redact_text (fst (redact_text t)) = (fst (redact_text t), [])"
proof -
  let ?ps = "table_order redaction_patterns"
  let ?T = "text_in_order ?ps t"
  have st: "\<forall>p \<in> snd ` set ?ps. stable p"
    using all_patterns_stable by (simp add: all_patterns_def)
  have "\<forall>p \<in> snd ` set ?ps. clean_from p [] ?T"
  proof
    fix p assume p: "p \<in> snd ` set ?ps"
    with st have "stable p" by blast
    from text_in_order_clean[OF st this] p show "clean_from p [] ?T" by blast
  qed
  from clean_fixed[OF this] show ?thesis by (simp add: redact_text_closed)
qed

section \<open>The time stamp is not redacted\<close>

text \<open>
  \<^verbatim>\<open>datetime.isoformat\<close> writes \<^verbatim>\<open>YYYY-MM-DDTHH:MM:SS\<close>, followed by \<^verbatim>\<open>.ffffff\<close> when
  the microseconds are not zero. No pattern of the table tells one digit from another,
  so it is enough to run the patterns on the two shapes with every digit set to 0.
\<close>

definition zero_digit :: "char \<Rightarrow> char" where
  "zero_digit c = (if is_digit c then CHR ''0'' else c)"

definition iso_shape :: "string \<Rightarrow> bool" where
  "iso_shape s = (map zero_digit s = ''0000-00-00T00:00:00''
     \<or> map zero_digit s = ''0000-00-00T00:00:00.000000'')"

fun item_blind :: "citem \<Rightarrow> bool" where
  "item_blind (CChar x) = (\<not> is_digit x)"
| "item_blind (CRange lo hi) = (code hi < 48 \<or> 57 < code lo \<or> in_range (code lo) (code hi) 48)"
| "item_blind CDigit = True"
| "item_blind CSpace = True"

fun atom_blind :: "atom \<Rightarrow> bool" where
  "atom_blind (Chr x) = (\<not> is_digit x)"
| "atom_blind (InSet items) = list_all item_blind items"
| "atom_blind (NotInSet items) = (items = [CSpace])"
| "atom_blind AnyChar = True"

fun blind :: "re \<Rightarrow> bool" where
  "blind (One a) = atom_blind a"
| "blind (Rep a lo hi) = atom_blind a"
| "blind (Seq e1 e2) = (blind e1 \<and> blind e2)"
| "blind (Alt e1 e2) = (blind e1 \<and> blind e2)"
| "blind (Grp e) = blind e"
| "blind _ = True"

lemma code_zero: "code CHR ''0'' = 48"
  by (simp add: code_def)

lemma digit_fold: "digit_code n \<Longrightarrow> lower_code n = n \<and> upper_code n = n"
  by (auto simp: digit_code_def lower_code_def upper_code_def in_range_def)

lemma fold_digit: "digit_code (lower_code n) \<Longrightarrow> lower_code n = n"
  by (auto simp: digit_code_def lower_code_def in_range_def split: if_splits)

lemma item_blind_ok:
  assumes "item_blind i" and "digit_code n" and "citem_ok True i n"
  shows "citem_ok True i 48"
proof (cases i)
  case (CChar x)
  from assms(2) have f: "lower_code n = n" by (simp add: digit_fold)
  with assms(3) CChar have "lower_code (code x) = n" by simp
  with assms(2) have "digit_code (lower_code (code x))" by simp
  from fold_digit[OF this] \<open>lower_code (code x) = n\<close> assms(2) have "is_digit x"
    by (simp add: is_digit_def)
  with assms(1) CChar show ?thesis by simp
next
  case (CRange lo hi)
  from assms(2) have f: "lower_code n = n" "upper_code n = n" by (simp_all add: digit_fold)
  with assms(3) CRange have "in_range (code lo) (code hi) n" by simp
  with assms(1,2) CRange have "in_range (code lo) (code hi) 48"
    by (auto simp: in_range_def digit_code_def)
  then show ?thesis using CRange by (simp add: lower_code_def upper_code_def in_range_def)
next
  case CDigit
  then show ?thesis by (simp add: digit_code_def in_range_def)
next
  case CSpace
  with assms(2,3) show ?thesis by (auto simp: digit_code_def space_code_def in_range_def)
qed

lemma atom_blind_ok:
  assumes "atom_blind a" and "atom_ok True a c"
  shows "atom_ok True a (zero_digit c)"
proof (cases "is_digit c")
  case False
  with assms(2) show ?thesis by (simp add: zero_digit_def)
next
  case True
  then have d: "digit_code (code c)" by (simp add: is_digit_def)
  have z: "zero_digit c = CHR ''0''" using True by (simp add: zero_digit_def)
  show ?thesis
  proof (cases a)
    case (Chr x)
    from d have "lower_code (code c) = code c" by (simp add: digit_fold)
    with assms(2) Chr have e: "lower_code (code x) = code c" by (simp add: atom_ok_def)
    with d have "digit_code (lower_code (code x))" by simp
    from fold_digit[OF this] e d have "is_digit x" by (simp add: is_digit_def)
    with assms(1) Chr show ?thesis by simp
  next
    case (InSet items)
    with assms(2) obtain i where i: "i \<in> set items" "citem_ok True i (code c)"
      by (auto simp: atom_ok_def)
    with assms(1) InSet have "item_blind i" by (simp add: list_all_iff)
    from item_blind_ok[OF this d i(2)] i(1) InSet z show ?thesis
      by (auto simp: atom_ok_def code_zero)
  next
    case (NotInSet items)
    with assms(1) have "items = [CSpace]" by simp
    with NotInSet z show ?thesis
      by (simp add: atom_ok_def code_zero space_code_def in_range_def)
  next
    case AnyChar
    then show ?thesis by (simp add: atom_ok_def)
  qed
qed

lemma is_word_zero_digit: "is_word (zero_digit c) = is_word c"
  by (auto simp: zero_digit_def is_word_def is_digit_def word_code_def digit_code_def
      in_range_def code_def)

lemma word_before_zero: "word_before (map zero_digit s) = word_before s"
  by (cases s) (simp_all add: word_before_def is_word_zero_digit)

lemma takes_blind:
  "blind e \<Longrightarrow> takes True e l X r g \<Longrightarrow>
     \<forall>g'. takes True e (map zero_digit l) (map zero_digit X) (map zero_digit r) g'"
proof (induction e arbitrary: l X r g)
  case (One a)
  then show ?case by (auto simp: takes_One atom_blind_ok)
next
  case (Rep a lo hi)
  then show ?case by (cases hi) (auto simp: takes_Rep atom_blind_ok)
next
  case WordB
  then show ?case by (simp add: takes_WordB at_boundary_def word_before_zero)
next
  case Eps
  then show ?case by (simp add: takes_Eps)
next
  case (Seq e1 e2)
  from Seq.prems(2) obtain X1 X2 g1 where X: "X = X1 @ X2"
    and a: "(rev X1 @ l, X2 @ r, g1) \<in> set (m True e1 (l, X @ r, g))"
    and b: "takes True e2 (rev X1 @ l) X2 r g1"
    by (auto simp: takes_Seq)
  from a X have a1: "takes True e1 l X1 (X2 @ r) g" by (auto simp: takes_def)
  from Seq.prems(1) have b1: "blind e1" and b2: "blind e2" by simp_all
  let ?z = "map zero_digit"
  show ?case
  proof
    fix g'
    from Seq.IH(1)[OF b1 a1] have "takes True e1 (?z l) (?z X1) (?z (X2 @ r)) g'" by blast
    then obtain g1' where a': "(rev (?z X1) @ ?z l, ?z X2 @ ?z r, g1') \<in> set (m True e1 (?z l, ?z X @ ?z r, g'))"
      using X by (auto simp: takes_def)
    from Seq.IH(2)[OF b2 b] have "takes True e2 (?z (rev X1 @ l)) (?z X2) (?z r) g1'" by blast
    then have "takes True e2 (rev (?z X1) @ ?z l) (?z X2) (?z r) g1'" by (simp add: rev_map)
    with a' X show "takes True (Seq e1 e2) (?z l) (?z X) (?z r) g'"
      unfolding takes_Seq by (intro exI[of _ "?z X1"] exI[of _ "?z X2"] exI[of _ g1']) simp
  qed
next
  case (Alt e1 e2)
  then show ?case by (auto simp: takes_Alt)
next
  case (Grp e)
  then show ?case by (auto simp: takes_Grp)
qed

lemma clean_from_zero:
  assumes "blind p" and "clean_from p [] (map zero_digit s)"
  shows "clean_from p [] s"
  unfolding clean_from_def
proof (intro allI impI notI)
  fix u v
  assume s: "s = u @ v" and a: "matches_at p (rev u @ []) v"
  then obtain X r where v: "v = X @ r" and t: "takes True p (rev u) X r None"
    by (auto simp: matches_at_takes)
  let ?z = "map zero_digit"
  from takes_blind[OF assms(1) t] have "takes True p (?z (rev u)) (?z X) (?z r) None" by blast
  with v have "matches_at p (rev (?z u) @ []) (?z v)"
    by (auto simp: matches_at_takes rev_map)
  moreover from s have "?z s = ?z u @ ?z v" by simp
  ultimately show False using assms(2) unfolding clean_from_def by blast
qed

lemma all_patterns_blind: "\<forall>p \<in> set all_patterns. blind p"
  by (simp add: all_patterns_def table_order_def redaction_patterns_def pattern_defs
      is_digit_def digit_code_def code_def in_range_def)

lemmas shape_defs = all_patterns_def table_order_def redaction_patterns_def pattern_defs
  advance_def rep_count_def at_boundary_def word_before_def atom_ok_def code_def in_range_def
  digit_code_def space_code_def word_code_def lower_code_def upper_code_def is_word_def

lemma shape_seconds_clean:
  "\<forall>p \<in> set all_patterns. search True p [] ''0000-00-00T00:00:00'' = None"
  by (simp add: shape_defs)

lemma shape_micro_clean:
  "\<forall>p \<in> set all_patterns. search True p [] ''0000-00-00T00:00:00.000000'' = None"
  by (simp add: shape_defs)

lemma redact_text_iso:
  assumes "iso_shape now"
  shows "redact_text now = (now, [])"
proof -
  have "\<forall>p \<in> set all_patterns. clean_from p [] now"
  proof
    fix p assume p: "p \<in> set all_patterns"
    with all_patterns_blind have b: "blind p" by blast
    from p shape_seconds_clean shape_micro_clean have
      "clean_from p [] ''0000-00-00T00:00:00''" "clean_from p [] ''0000-00-00T00:00:00.000000''"
      unfolding search_None by blast+
    with assms have "clean_from p [] (map zero_digit now)"
      unfolding iso_shape_def by (elim disjE) simp_all
    from clean_from_zero[OF b this] show "clean_from p [] now" .
  qed
  then have "\<forall>p \<in> snd ` set (table_order redaction_patterns). clean_from p [] now"
    by (simp add: all_patterns_def)
  from clean_fixed[OF this] show ?thesis by (simp add: redact_text_closed)
qed

section \<open>Redacting a redacted record\<close>

text \<open>A value that redaction leaves as it is and that gives no entry.\<close>

definition settled :: "pyval \<Rightarrow> bool" where
  "settled v = (redact_value v = v \<and> (\<forall>k. entries (k, v) = []))"

lemma settled_redact_value: "settled (redact_value v)"
proof (cases "\<exists>t. v = PStr t")
  case True
  then obtain t where "v = PStr t" by blast
  then show ?thesis
    by (simp add: settled_def redact_value_def entries_def redact_text_idem)
next
  case False
  then have n: "\<forall>t. v \<noteq> PStr t" by simp
  then have "\<forall>k. entries (k, v) = []" by (cases v) (auto simp: entries_def)
  with redact_value_nonstr[OF n] show ?thesis by (simp add: settled_def)
qed

lemma settled_True: "settled (PBool True)"
  by (simp add: settled_def redact_value_def entries_def)

lemma settled_iso: "iso_shape now \<Longrightarrow> settled (PStr now)"
  by (simp add: settled_def redact_value_def entries_def redact_text_iso)

lemma set_dict_set: "set (dict_set d k w) \<subseteq> insert (k, w) (set d)"
proof (induction d)
  case Nil
  then show ?case by simp
next
  case (Cons kv d)
  obtain a b where kv: "kv = (a, b)" by (cases kv)
  show ?case
  proof (cases "a = k")
    case True
    with kv show ?thesis by auto
  next
    case False
    with kv Cons.IH show ?thesis by auto
  qed
qed

lemma settled_dict_set:
  assumes "\<forall>v \<in> snd ` set d. settled v" and "settled w"
  shows "\<forall>v \<in> snd ` set (dict_set d k w). settled v"
proof
  fix v assume "v \<in> snd ` set (dict_set d k w)"
  then obtain k' where "(k', v) \<in> set (dict_set d k w)" by auto
  with set_dict_set[of d k w] have "(k', v) = (k, w) \<or> (k', v) \<in> set d" by blast
  with assms show "settled v" by force
qed

lemma settled_fixed:
  "\<forall>v \<in> snd ` set d. settled v \<Longrightarrow>
   map (\<lambda>(k, v). (k, redact_value v)) d = d \<and> concat (map entries d) = []"
proof (induction d)
  case Nil
  then show ?case by simp
next
  case (Cons kv d)
  obtain k v where kv: "kv = (k, v)" by (cases kv)
  with Cons.prems have "settled v" by simp
  then have "redact_value v = v" "entries (k, v) = []" by (simp_all add: settled_def)
  with Cons kv show ?case by simp
qed

lemma dict_set_same: "map_of d k = Some v \<Longrightarrow> dict_set d k v = d"
  by (induction d) (auto split: if_splits)

lemma distinct_dict_set: "distinct (map fst d) \<Longrightarrow> distinct (map fst (dict_set d k v))"
  by (simp add: keys_dict_set)

section \<open>Running the redaction on given texts\<close>

lemmas run_defs =
  redact_text_def redaction_patterns_def government_agencies_def contact_info_def
  email_pattern_def phone_pattern_def url_pattern_def www_pattern_def
  federal_codes_def specific_locations_def cat_def str_def plus_def star_def opt_def times_def
  digit_def space_def AZ_def az_def d09_def letters_space_def upper_digit_def
  upper_digit_dash_def labelled_def REDACTED_def redact_pattern_def re_findall_def re_sub_def
  hit_item_def advance_def rep_count_def at_boundary_def word_before_def atom_ok_def code_def
  in_range_def digit_code_def space_code_def word_code_def lower_code_def upper_code_def
  is_word_def Let_def scan.simps

lemma run_DOD:
  "redact_text ''DOD'' = (''[REDACTED]'', [''Removed government_agencies: DOD''])"
  by (simp add: run_defs)

lemma run_email:
  "redact_text ''jane@example.com'' = (''[REDACTED]'', [''Removed contact_info: jane@example.com''])"
  by (simp add: run_defs)

lemma run_phone:
  "redact_text ''555-123-4567'' = (''[REDACTED]'', [''Removed contact_info: 555-123-4567''])"
  by (simp add: run_defs)

lemma run_url:
  "redact_text ''https://example.com/x'' =
     (''[REDACTED]'', [''Removed contact_info: https://example.com/x''])"
  by (simp add: run_defs)

lemma run_DUNS:
  "redact_text ''DUNS: 123456789'' = (''[REDACTED]'', [''Removed federal_codes: DUNS: 123456789''])"
  by (simp add: run_defs)

lemma run_street:
  "redact_text ''123 Main Street'' = (''[REDACTED]'', [''Removed specific_locations: Street''])"
  by (simp add: run_defs)

lemma run_AFB:
  "redact_text ''Smith AFB'' = (''[REDACTED]'', [''Removed specific_locations: AFB''])"
  by (simp add: run_defs)

lemma run_Wright:
  "redact_text ''Wright-Patterson AFB, Ohio'' =
     (''Wright-[REDACTED], Ohio'', [''Removed specific_locations: AFB''])"
  by (simp add: run_defs)

lemma run_contact:
  "redact_text ''Contact: rfq@agency.gov'' =
     (''Contact: [REDACTED]'', [''Removed contact_info: rfq@agency.gov''])"
  by (simp add: run_defs)

lemma redact_content_single:
  assumes "k \<noteq> ''redaction_applied''" and "k \<noteq> ''redaction_timestamp''"
    and "redact_text t = (t', rs)"
  shows "redact_content now [(k, PStr t)] =
    ([(k, PStr t'), (''redaction_applied'', PBool True), (''redaction_timestamp'', PStr now)],
     map (\<lambda>r. k @ '': '' @ r) rs)"
  using assms by (simp add: redact_content_def redact_section_def)

section \<open>Claims about the redaction of given texts\<close>

text \<open>
  C8. For each of the literals "DOD", "jane@example.com", "555-123-4567",
  "https://example.com/x", "DUNS: 123456789", "123 Main Street" and "Smith AFB", redacting
  a record whose section holds exactly that literal yields the section text "[REDACTED]"
  and exactly one summary entry, tagged with the section key and with the category
  government_agencies, contact_info, contact_info, contact_info, federal_codes,
  specific_locations, specific_locations respectively.
\<close>

theorem C8_literal_per_category:
  assumes "k \<noteq> ''redaction_applied''" and "k \<noteq> ''redaction_timestamp''"
    and "(lit, category) \<in> set [(''DOD'', ''government_agencies''),
           (''jane@example.com'', ''contact_info''), (''555-123-4567'', ''contact_info''),
           (''https://example.com/x'', ''contact_info''), (''DUNS: 123456789'', ''federal_codes''),
           (''123 Main Street'', ''specific_locations''), (''Smith AFB'', ''specific_locations'')]"
  shows "\<exists>mt. redact_content now [(k, PStr lit)] =
    ([(k, PStr ''[REDACTED]''), (''redaction_applied'', PBool True),
      (''redaction_timestamp'', PStr now)],
     [k @ '': Removed '' @ category @ '': '' @ mt])"
proof -
  have "\<exists>mt. redact_text lit = (''[REDACTED]'', [''Removed '' @ category @ '': '' @ mt])"
    using assms(3) run_DOD run_email run_phone run_url run_DUNS run_street run_AFB
    by auto
  then obtain mt where "redact_text lit = (''[REDACTED]'', [''Removed '' @ category @ '': '' @ mt])"
    by blast
  from redact_content_single[OF assms(1,2) this] show ?thesis
    by (intro exI[of _ mt]) simp
qed

theorem C8_literal_per_category_witness:
  "\<exists>mt. redact_content ''2026-01-01T00:00:00'' [(''scope_of_work'', PStr ''Smith AFB'')] =
    ([(''scope_of_work'', PStr ''[REDACTED]''), (''redaction_applied'', PBool True),
      (''redaction_timestamp'', PStr ''2026-01-01T00:00:00'')],
     [''scope_of_work'' @ '': Removed '' @ ''specific_locations'' @ '': '' @ mt])"
  by (rule C8_literal_per_category) simp_all

text \<open>
  C6 at the record of the scenario, with location "Wright-Patterson AFB, Ohio" and
  technical_requirements "Contact: rfq@agency.gov". The installation pattern admits
  letters and white space only before the word AFB, so its match starts behind the
  hyphen: what is replaced is "Patterson AFB", and the redacted location is
  "Wright-[REDACTED], Ohio", in which the first part of the installation's name is left,
  where the scenario has "[REDACTED], Ohio". The rest is as the scenario has it:
  technical_requirements becomes "Contact: [REDACTED]", and the summary has exactly two
  entries, of the categories specific_locations and contact_info in that order.
\<close>

theorem C6_scenario_leaves_name_part:
  "redact_content now
      [(''location'', PStr ''Wright-Patterson AFB, Ohio''),
       (''technical_requirements'', PStr ''Contact: rfq@agency.gov'')] =
    ([(''location'', PStr ''Wright-[REDACTED], Ohio''),
      (''technical_requirements'', PStr ''Contact: [REDACTED]''),
      (''redaction_applied'', PBool True), (''redaction_timestamp'', PStr now)],
     [''location: Removed specific_locations: AFB'',
      ''technical_requirements: Removed contact_info: rfq@agency.gov''])"
  by (simp add: redact_content_def redact_section_def run_Wright run_contact)

text \<open>
  C4 at the record whose location is "Smith AFB". The installation pattern matches the
  whole text "Smith AFB", and the whole text is replaced; the one summary entry holds
  "AFB", which is what the capturing group of the pattern took, not the matched text.
\<close>

theorem C4_entry_holds_group_only:
  "redact_content now [(''location'', PStr ''Smith AFB'')] =
    ([(''location'', PStr ''[REDACTED]''), (''redaction_applied'', PBool True),
      (''redaction_timestamp'', PStr now)],
     [''location: Removed specific_locations: AFB''])"
  by (simp add: redact_content_def redact_section_def run_AFB)

section \<open>Claims about the redaction of any record\<close>

text \<open>
  C5, as the program behaves. Two invocations on the same record, whatever the clock
  reads, yield the same summary, and redacted records that are the same once the time
  stamp is set aside. The summary lists the entries by section in the order of the
  record, within a section by category in the order of the table, within a category by
  pattern in the order of its list, each pattern working on the text as the patterns
  before it left it, and within a pattern by match from left to right.
\<close>

theorem C5_order:
  "snd (redact_content now1 content) = snd (redact_content now2 content)
   \<and> dict_set (fst (redact_content now1 content)) ''redaction_timestamp'' v
     = dict_set (fst (redact_content now2 content)) ''redaction_timestamp'' v
   \<and> snd (redact_content now1 content) =
       concat (map (\<lambda>(k, x). case x of
                      PStr t \<Rightarrow> map (\<lambda>r. k @ '': '' @ r)
                                  (summary_in_order (table_order redaction_patterns) t)
                    | _ \<Rightarrow> []) content)"
proof -
  have e: "entries = (\<lambda>(k, x). case x of
                      PStr t \<Rightarrow> map (\<lambda>r. k @ '': '' @ r)
                                  (summary_in_order (table_order redaction_patterns) t)
                    | _ \<Rightarrow> [])"
    by (auto simp: entries_def redact_text_closed fun_eq_iff split: pyval.splits)
  show ?thesis
    by (simp add: redact_content_summary redact_content_fst dict_set_twice flip: e)
qed

text \<open>
  C5, as the specification words it, fails: the redacted record holds the reading of
  the clock, so two invocations at different instants yield different records.
\<close>

theorem C5_counterexample:
  "fst (redact_content ''2026-01-01T00:00:00'' []) \<noteq> fst (redact_content ''2026-01-01T00:00:01'' [])"
  by (simp add: redact_content_def)

text \<open>
  C9, as the program behaves. A field whose value is not a string, and whose key is
  neither redaction_applied nor redaction_timestamp, is the same in the output; it is not
  scanned and gives no entry: taking the field out of the input changes neither the
  summary nor any other field of the output.
\<close>

theorem C9_nonstring_passthrough:
  assumes "distinct (keys content)" and "(k, v) \<in> set content" and "\<forall>t. v \<noteq> PStr t"
    and "k \<noteq> ''redaction_applied''" and "k \<noteq> ''redaction_timestamp''"
  shows "dict_get (fst (redact_content now content)) k = Some v
    \<and> snd (redact_content now (filter (\<lambda>(k', v'). k' \<noteq> k) content)) = snd (redact_content now content)
    \<and> fst (redact_content now (filter (\<lambda>(k', v'). k' \<noteq> k) content))
        = filter (\<lambda>(k', v'). k' \<noteq> k) (fst (redact_content now content))"
proof -
  from assms have d: "distinct (map fst content)" by (simp add: keys_def)
  then have d': "distinct (map fst (filter (\<lambda>(k', v'). k' \<noteq> k) content))"
    by (simp add: distinct_map_filter)
  have 1: "dict_get (fst (redact_content now content)) k = Some v"
    using assms(4,5) dict_get_distinct[OF d assms(2)] redact_value_nonstr[OF assms(3)]
    by (simp add: redact_content_closed[OF d] dict_get_dict_set dict_get_map_value)
  have 2: "snd (redact_content now (filter (\<lambda>(k', v'). k' \<noteq> k) content)) = snd (redact_content now content)"
    by (simp add: redact_content_summary entries_filter[OF d assms(2,3)])
  have m: "map (\<lambda>(k, v). (k, redact_value v)) (filter (\<lambda>(k', v'). k' \<noteq> k) content)
           = filter (\<lambda>(k', v'). k' \<noteq> k) (map (\<lambda>(k, v). (k, redact_value v)) content)"
    by (induction content) auto
  have 3: "fst (redact_content now (filter (\<lambda>(k', v'). k' \<noteq> k) content))
        = filter (\<lambda>(k', v'). k' \<noteq> k) (fst (redact_content now content))"
    using assms(4,5)
    by (simp add: redact_content_closed[OF d] redact_content_closed[OF d'] m filter_dict_set)
  from 1 2 3 show ?thesis by simp
qed

theorem C9_nonstring_passthrough_witness:
  "distinct (keys [(''timeline'', PNone), (''confidence_score'', PFloat ''0.95'')])
   \<and> dict_get (fst (redact_content ''2026-01-01T00:00:00''
        [(''timeline'', PNone), (''confidence_score'', PFloat ''0.95'')])) ''confidence_score''
      = Some (PFloat ''0.95'')
   \<and> snd (redact_content ''2026-01-01T00:00:00'' [(''timeline'', PNone)])
      = snd (redact_content ''2026-01-01T00:00:00''
          [(''timeline'', PNone), (''confidence_score'', PFloat ''0.95'')])"
  using C9_nonstring_passthrough[of "[(''timeline'', PNone), (''confidence_score'', PFloat ''0.95'')]"
     "''confidence_score''" "PFloat ''0.95''" "''2026-01-01T00:00:00''"]
  by (simp add: keys_def)

text \<open>
  C9, as the specification words it, fails for the two keys that the program stamps: a
  redaction_applied that came in as false goes out as true.
\<close>

theorem C9_counterexample:
  "dict_get (fst (redact_content ''2026-01-01T00:00:00'' [(''redaction_applied'', PBool False)]))
     ''redaction_applied'' \<noteq> Some (PBool False)"
  by (simp add: redact_content_def redact_section_def dict_get_def)

text \<open>
  C10. For every input dictionary, the keys of the output are the keys of the input, in
  their order, followed by redaction_applied and redaction_timestamp where the input had
  not got them; redaction_applied is true and redaction_timestamp is the reading of the
  clock; every string-valued key, whatever its name, holds the redacted text (unless it is
  one of the two stamped keys), and every redaction of its text is in the summary under
  its key.
\<close>

theorem C10_keys:
  assumes "distinct (keys content)"
  shows "keys (fst (redact_content now content)) =
           keys content @ filter (\<lambda>k. k \<notin> set (keys content)) [''redaction_applied'', ''redaction_timestamp'']
    \<and> dict_get (fst (redact_content now content)) ''redaction_applied'' = Some (PBool True)
    \<and> dict_get (fst (redact_content now content)) ''redaction_timestamp'' = Some (PStr now)
    \<and> (\<forall>k t. (k, PStr t) \<in> set content \<and> k \<noteq> ''redaction_applied'' \<and> k \<noteq> ''redaction_timestamp''
          \<longrightarrow> dict_get (fst (redact_content now content)) k = Some (PStr (fst (redact_text t))))
    \<and> (\<forall>k t r. (k, PStr t) \<in> set content \<and> r \<in> set (snd (redact_text t))
          \<longrightarrow> k @ '': '' @ r \<in> set (snd (redact_content now content)))"
proof -
  from assms have d: "distinct (map fst content)" by (simp add: keys_def)
  have k: "keys (map (\<lambda>(k, v). (k, redact_value v)) content) = keys content"
    by (simp add: keys_def case_prod_unfold comp_def)
  have g: "dict_get (fst (redact_content now content)) k = Some (PStr (fst (redact_text t)))"
    if "(k, PStr t) \<in> set content" "k \<noteq> ''redaction_applied''" "k \<noteq> ''redaction_timestamp''" for k t
    using that dict_get_distinct[OF d that(1)]
    by (simp add: redact_content_closed[OF d] dict_get_dict_set dict_get_map_value redact_value_def)
  have s: "k @ '': '' @ r \<in> set (snd (redact_content now content))"
    if "(k, PStr t) \<in> set content" "r \<in> set (snd (redact_text t))" for k t r
    using entries_mem[OF that] by (simp add: redact_content_summary)
  have a: "keys (fst (redact_content now content)) =
           keys content @ filter (\<lambda>k. k \<notin> set (keys content)) [''redaction_applied'', ''redaction_timestamp'']"
    by (simp only: redact_content_closed[OF d] fst_conv keys_redacted k)
  have b: "dict_get (fst (redact_content now content)) ''redaction_applied'' = Some (PBool True)"
    "dict_get (fst (redact_content now content)) ''redaction_timestamp'' = Some (PStr now)"
    by (simp_all add: redact_content_closed[OF d] dict_get_dict_set)
  from a b g s show ?thesis by blast
qed

theorem C10_keys_witness:
  "distinct (keys [(''vendor_note'', PStr ''DOD''), (''confidence_score'', PFloat ''0.9'')])
   \<and> keys (fst (redact_content ''2026-01-01T00:00:00''
         [(''vendor_note'', PStr ''DOD''), (''confidence_score'', PFloat ''0.9'')])) =
       [''vendor_note'', ''confidence_score'', ''redaction_applied'', ''redaction_timestamp'']
   \<and> dict_get (fst (redact_content ''2026-01-01T00:00:00''
         [(''vendor_note'', PStr ''DOD''), (''confidence_score'', PFloat ''0.9'')])) ''vendor_note''
       = Some (PStr ''[REDACTED]'')
   \<and> ''vendor_note: Removed government_agencies: DOD''
       \<in> set (snd (redact_content ''2026-01-01T00:00:00''
         [(''vendor_note'', PStr ''DOD''), (''confidence_score'', PFloat ''0.9'')]))"
  using C10_keys[of "[(''vendor_note'', PStr ''DOD''), (''confidence_score'', PFloat ''0.9'')]"
                    "''2026-01-01T00:00:00''"]
  by (simp add: keys_def run_DOD)

section \<open>Claims about parsing the response\<close>

text \<open>
  In the closed statements below the interpreter admits 994 containers, one inside the
  other, and integer literals of 4300 digits.
\<close>

text \<open>
  C1, as the program behaves. When the search finds a brace-delimited text and the
  decoder returns a value for that text, the parser returns that value as it is: no
  missing section key is filled in, and neither extracted_sections nor confidence_score
  is added.
\<close>

theorem C1_decoded_as_is:
  assumes "re_search False brace_literal text = Some json_str"
    and "json_loads py json_str = Returned v"
  shows "parse_extraction_response py text = Returned v"
  using assms by (simp add: parse_extraction_response_def)

theorem C1_decoded_as_is_witness:
  "re_search False brace_literal ''{\"scope_of_work\": \"x\"}'' = Some ''{\"scope_of_work\": \"x\"}''
   \<and> json_loads \<lparr>recursion_room = 994, max_str_digits = 4300\<rparr> ''{\"scope_of_work\": \"x\"}''
       = Returned (PDict [(''scope_of_work'', PStr ''x'')])
   \<and> parse_extraction_response \<lparr>recursion_room = 994, max_str_digits = 4300\<rparr> ''{\"scope_of_work\": \"x\"}''
       = Returned (PDict [(''scope_of_work'', PStr ''x'')])"
proof -
  have l: "json_loads \<lparr>recursion_room = 994, max_str_digits = 4300\<rparr> ''{\"scope_of_work\": \"x\"}''
       = Returned (PDict [(''scope_of_work'', PStr ''x'')])"
    by (rule loads_scope) simp
  from C1_decoded_as_is[OF search_scope l] search_scope l show ?thesis by simp
qed

text \<open>
  C1, as the specification words it, fails: the response {"scope_of_work": "x"} decodes
  to an object with a section key, and the parser returns it with no deliverables, no
  extracted_sections and no confidence_score.
\<close>

theorem C1_counterexample:
  "parse_extraction_response \<lparr>recursion_room = 994, max_str_digits = 4300\<rparr> ''{\"scope_of_work\": \"x\"}''
     = Returned (PDict [(''scope_of_work'', PStr ''x'')])
   \<and> dict_get [(''scope_of_work'', PStr ''x'')] ''deliverables'' = None
   \<and> dict_get [(''scope_of_work'', PStr ''x'')] ''extracted_sections'' = None
   \<and> dict_get [(''scope_of_work'', PStr ''x'')] ''confidence_score'' = None"
  by (simp add: parse_extraction_response_def search_scope loads_scope dict_get_def)

text \<open>
  C2, as the program behaves. Take any input text for which the decoder, run on the
  brace-delimited text that the search finds, raises neither RecursionError nor
  ValueError (and is within the characters of the model). Then the parser returns a
  value: the fallback record, or the value that the decoder returned for the text
  found. In the fallback record all nine section keys are present and confidence_score
  is 0.5; about the keys of a decoded value nothing is ensured.
\<close>

theorem C2_returns:
  assumes "\<forall>json_str. re_search False brace_literal text = Some json_str \<longrightarrow>
      json_loads py json_str \<noteq> Raised RecursionError
      \<and> json_loads py json_str \<noteq> Raised ValueError
      \<and> json_loads py json_str \<noteq> Unmodelled"
  shows "(\<exists>v. parse_extraction_response py text = Returned v
          \<and> (v = PDict (manual_parse_response text)
             \<or> (\<exists>json_str. re_search False brace_literal text = Some json_str
                   \<and> json_loads py json_str = Returned v)))
   \<and> keys (manual_parse_response text) =
        [''project_overview'', ''scope_of_work'', ''deliverables'', ''timeline'', ''location'',
         ''submission_requirements'', ''technical_requirements'', ''qualifications'',
         ''evaluation_criteria'', ''extracted_sections'', ''confidence_score'']
   \<and> dict_get (manual_parse_response text) ''confidence_score'' = Some (PFloat ''0.5'')"
proof -
  have "\<exists>v. parse_extraction_response py text = Returned v
          \<and> (v = PDict (manual_parse_response text)
             \<or> (\<exists>json_str. re_search False brace_literal text = Some json_str
                   \<and> json_loads py json_str = Returned v))"
  proof (cases "re_search False brace_literal text")
    case None
    then show ?thesis by (simp add: parse_extraction_response_def)
  next
    case (Some json_str)
    with assms have n: "json_loads py json_str \<noteq> Raised RecursionError"
      "json_loads py json_str \<noteq> Raised ValueError" "json_loads py json_str \<noteq> Unmodelled"
      by simp_all
    show ?thesis
    proof (cases "json_loads py json_str")
      case (Returned v)
      with Some show ?thesis by (simp add: parse_extraction_response_def)
    next
      case (Raised e)
      with n have "e = JSONDecodeError" by (cases e) simp_all
      with Some Raised show ?thesis by (simp add: parse_extraction_response_def)
    next
      case Unmodelled
      with n show ?thesis by simp
    qed
  qed
  moreover have "keys (manual_parse_response text) =
        [''project_overview'', ''scope_of_work'', ''deliverables'', ''timeline'', ''location'',
         ''submission_requirements'', ''technical_requirements'', ''qualifications'',
         ''evaluation_criteria'', ''extracted_sections'', ''confidence_score'']"
    by (simp add: manual_parse_response_def keys_def)
  moreover have "dict_get (manual_parse_response text) ''confidence_score'' = Some (PFloat ''0.5'')"
    by (simp add: manual_parse_response_def dict_get_def)
  ultimately show ?thesis by blast
qed

theorem C2_returns_witness:
  "re_search False brace_literal ''x {\"timeline\": \"May\"} y'' = Some ''{\"timeline\": \"May\"}''
   \<and> json_loads \<lparr>recursion_room = 994, max_str_digits = 4300\<rparr> ''{\"timeline\": \"May\"}'' = Returned (PDict [(''timeline'', PStr ''May'')])
   \<and> (\<exists>v. parse_extraction_response \<lparr>recursion_room = 994, max_str_digits = 4300\<rparr> ''x {\"timeline\": \"May\"} y'' = Returned v
          \<and> (v = PDict (manual_parse_response ''x {\"timeline\": \"May\"} y'')
             \<or> json_loads \<lparr>recursion_room = 994, max_str_digits = 4300\<rparr> ''{\"timeline\": \"May\"}'' = Returned v))"
proof -
  have s: "re_search False brace_literal ''x {\"timeline\": \"May\"} y'' = Some ''{\"timeline\": \"May\"}''"
    by (simp add: search_defs)
  have l: "json_loads \<lparr>recursion_room = 994, max_str_digits = 4300\<rparr> ''{\"timeline\": \"May\"}'' = Returned (PDict [(''timeline'', PStr ''May'')])"
    by (simp add: json_defs)
  from C2_returns[of "''x {\"timeline\": \"May\"} y''" "\<lparr>recursion_room = 994, max_str_digits = 4300\<rparr>"] s l
  show ?thesis by simp
qed

text \<open>
  C2, as the specification words it, fails: the response {} is returned as the empty
  dictionary, in which no section key is present.
\<close>

theorem C2_counterexample:
  "parse_extraction_response \<lparr>recursion_room = 994, max_str_digits = 4300\<rparr> ''{}'' = Returned (PDict [])
   \<and> dict_get [] ''project_overview'' = None"
  by (simp add: parse_extraction_response_def search_empty_object loads_empty_object dict_get_def)

text \<open>
  C3, as the program behaves. When no brace-delimited text is found, or the decoder
  raises JSONDecodeError for the text found, the parser returns the record whose
  scope_of_work is the first 500 characters of the input followed by "...", whose
  project_overview is the notice "AI extraction completed but formatting failed", whose
  other seven sections are "Not specified", whose extracted_sections is ["raw_content"]
  and whose confidence_score is 0.5.
\<close>

theorem C3_fallback:
  assumes "re_search False brace_literal text = None
     \<or> (\<exists>json_str. re_search False brace_literal text = Some json_str
           \<and> json_loads py json_str = Raised JSONDecodeError)"
  shows "parse_extraction_response py text = Returned (PDict
    [ (''project_overview'', PStr ''AI extraction completed but formatting failed''),
      (''scope_of_work'', PStr (take 500 text @ ''...'')),
      (''deliverables'', PStr ''Not specified''),
      (''timeline'', PStr ''Not specified''),
      (''location'', PStr ''Not specified''),
      (''submission_requirements'', PStr ''Not specified''),
      (''technical_requirements'', PStr ''Not specified''),
      (''qualifications'', PStr ''Not specified''),
      (''evaluation_criteria'', PStr ''Not specified''),
      (''extracted_sections'', PList [PStr ''raw_content'']),
      (''confidence_score'', PFloat ''0.5'') ])"
  using assms by (auto simp: parse_extraction_response_def manual_parse_response_def)

theorem C3_fallback_witness:
  "(re_search False brace_literal ''{\"a\": 1,}'' = Some ''{\"a\": 1,}''
    \<and> json_loads \<lparr>recursion_room = 994, max_str_digits = 4300\<rparr> ''{\"a\": 1,}'' = Raised JSONDecodeError)
   \<and> parse_extraction_response \<lparr>recursion_room = 994, max_str_digits = 4300\<rparr> ''{\"a\": 1,}'' = Returned (PDict
    [ (''project_overview'', PStr ''AI extraction completed but formatting failed''),
      (''scope_of_work'', PStr ''{\"a\": 1,}...''),
      (''deliverables'', PStr ''Not specified''),
      (''timeline'', PStr ''Not specified''),
      (''location'', PStr ''Not specified''),
      (''submission_requirements'', PStr ''Not specified''),
      (''technical_requirements'', PStr ''Not specified''),
      (''qualifications'', PStr ''Not specified''),
      (''evaluation_criteria'', PStr ''Not specified''),
      (''extracted_sections'', PList [PStr ''raw_content'']),
      (''confidence_score'', PFloat ''0.5'') ])"
proof -
  have l: "json_loads \<lparr>recursion_room = 994, max_str_digits = 4300\<rparr> ''{\"a\": 1,}'' = Raised JSONDecodeError"
    by (rule loads_trailing_comma) simp
  from C3_fallback[of "''{\"a\": 1,}''" "\<lparr>recursion_room = 994, max_str_digits = 4300\<rparr>"] search_trailing_comma l
  show ?thesis by simp
qed

text \<open>
  C3, as the specification words it, fails: in the fallback record project_overview is
  not "Not specified".
\<close>

theorem C3_counterexample:
  "parse_extraction_response \<lparr>recursion_room = 994, max_str_digits = 4300\<rparr> ''plain words''
     = Returned (PDict (manual_parse_response ''plain words''))
   \<and> dict_get (manual_parse_response ''plain words'') ''project_overview''
       = Some (PStr ''AI extraction completed but formatting failed'')"
  by (simp add: parse_extraction_response_def re_search_no_open_brace manual_parse_response_def
      dict_get_def)

section \<open>Claims about redacting twice\<close>

text \<open>
  C7. Redaction is idempotent on section text. For every record \<open>r\<close>, redacted at a time
  whose stamp \<open>now1\<close> has the shape that \<^verbatim>\<open>isoformat\<close> writes: redacting the redacted
  record again gives an empty summary, and leaves every field as it is but for
  redaction_timestamp, which receives the new reading \<open>now2\<close> of the clock.
\<close>

theorem C7_idempotent:
  assumes "distinct (keys r)" and "iso_shape now1"
  shows "redact_content now2 (fst (redact_content now1 r)) =
    (dict_set (fst (redact_content now1 r)) ''redaction_timestamp'' (PStr now2), [])"
proof -
  from assms(1) have d: "distinct (map fst r)" by (simp add: keys_def)
  let ?d = "map (\<lambda>(k, v). (k, redact_value v)) r"
  let ?r' = "dict_set (dict_set ?d ''redaction_applied'' (PBool True)) ''redaction_timestamp'' (PStr now1)"
  have r': "fst (redact_content now1 r) = ?r'" by (simp add: redact_content_closed[OF d])
  have "distinct (map fst ?d)" using d by (simp add: case_prod_unfold comp_def)
  then have d': "distinct (map fst ?r')" by (intro distinct_dict_set)
  have "\<forall>v \<in> snd ` set ?d. settled v" by (auto simp: settled_redact_value)
  then have "\<forall>v \<in> snd ` set (dict_set ?d ''redaction_applied'' (PBool True)). settled v"
    using settled_True by (rule settled_dict_set)
  then have "\<forall>v \<in> snd ` set ?r'. settled v"
    using settled_iso[OF assms(2)] by (rule settled_dict_set)
  from settled_fixed[OF this] have
    f: "map (\<lambda>(k, v). (k, redact_value v)) ?r' = ?r'" and e: "concat (map entries ?r') = []"
    by simp_all
  have "dict_get ?r' ''redaction_applied'' = Some (PBool True)"
    by (simp add: dict_get_dict_set)
  then have s: "dict_set ?r' ''redaction_applied'' (PBool True) = ?r'"
    by (intro dict_set_same) (simp add: dict_get_def)
  have "redact_content now2 ?r' =
      (dict_set (dict_set ?r' ''redaction_applied'' (PBool True)) ''redaction_timestamp'' (PStr now2), [])"
    unfolding redact_content_closed[OF d'] f e by (rule refl)
  with s r' show ?thesis by simp
qed

theorem C7_idempotent_witness:
  "distinct (keys [(''location'', PStr ''Smith AFB'')])
   \<and> iso_shape ''2026-01-01T00:00:00.000001''
   \<and> redact_content ''2026-01-01T00:00:05''
        (fst (redact_content ''2026-01-01T00:00:00.000001'' [(''location'', PStr ''Smith AFB'')])) =
       ([(''location'', PStr ''[REDACTED]''), (''redaction_applied'', PBool True),
         (''redaction_timestamp'', PStr ''2026-01-01T00:00:05'')], [])"
proof -
  have d: "distinct (keys [(''location'', PStr ''Smith AFB'')])" by (simp add: keys_def)
  have i: "iso_shape ''2026-01-01T00:00:00.000001''"
    by (simp add: iso_shape_def zero_digit_def is_digit_def digit_code_def in_range_def code_def)
  have f: "fst (redact_content ''2026-01-01T00:00:00.000001'' [(''location'', PStr ''Smith AFB'')]) =
      [(''location'', PStr ''[REDACTED]''), (''redaction_applied'', PBool True),
       (''redaction_timestamp'', PStr ''2026-01-01T00:00:00.000001'')]"
    by (simp add: redact_content_single[OF _ _ run_AFB])
  from C7_idempotent[OF d i, of "''2026-01-01T00:00:05''"] d i show ?thesis
    unfolding f by simp
qed

end
